theory Spec2Isabelle
  imports Main "HOL-Library.Word"
begin

section \<open>The matrix class of matrixclass.cpp\<close>

text \<open>
  The class \<^verbatim>\<open>Matrix\<close> holds two \<^verbatim>\<open>int\<close> fields and a
  \<^verbatim>\<open>std::vector<std::vector<int>>\<close>. A cell is a 32-bit machine integer, so that
  \<open>+\<close> and \<open>*\<close> on cells wrap around; \<open>sint\<close> reads a cell as the signed value the
  program sees. Dimensions, loop counters and flattened indices are C++ \<^verbatim>\<open>int\<close>s as
  well; they are modelled as HOL integers, and the two operators that can leave the 32-bit
  range on them (\<^verbatim>\<open>*\<close> on dimensions and \<^verbatim>\<open>/\<close>) have the wrap-around and the
  truncation written out. A loop counter \<open>i\<close> is only incremented below a bound that is
  itself an \<^verbatim>\<open>int\<close>, so \<^verbatim>\<open>++i\<close> is plain \<open>i + 1\<close>. Signed overflow is undefined in
  C++; the model gives it the two's complement result, the wrap-around that the
  specification names.
\<close>

subsection \<open>Machine integers\<close>

type_synonym cell = "32 word"

definition INT_MIN :: int where
  "INT_MIN = - 2147483648"

definition INT_MAX :: int where
  "INT_MAX = 2147483647"

definition wrap_int :: "int \<Rightarrow> int" where
  \<comment> \<open>the two's complement value of the low 32 bits\<close>
  "wrap_int x = (x + 2147483648) mod 4294967296 - 2147483648"

definition int_mul :: "int \<Rightarrow> int \<Rightarrow> int" where
  \<comment> \<open>\<^verbatim>\<open>a * b\<close> on \<^verbatim>\<open>int\<close>\<close>
  "int_mul a b = wrap_int (a * b)"

definition int_quot :: "int \<Rightarrow> int \<Rightarrow> int" where
  \<comment> \<open>\<^verbatim>\<open>a / b\<close> on \<^verbatim>\<open>int\<close> truncates towards zero; the callers exclude \<open>b = 0\<close>\<close>
  "int_quot a b = sgn a * sgn b * (\<bar>a\<bar> div \<bar>b\<bar>)"

definition int_rem :: "int \<Rightarrow> int \<Rightarrow> int" where
  \<comment> \<open>\<^verbatim>\<open>a % b\<close>: what \<^verbatim>\<open>a / b\<close> leaves\<close>
  "int_rem a b = a - b * int_quot a b"

subsection \<open>Data\<close>

record matrix =
  rows :: int
  cols :: int
  data :: "cell list list"

text \<open>
  What a call can end with instead of a value. \<open>IndexOutOfRange\<close> is
  \<^verbatim>\<open>std::out_of_range\<close> and \<open>DimensionMismatch\<close> is \<^verbatim>\<open>std::invalid_argument\<close>, the two
  exceptions the class throws itself. \<open>LengthError\<close> is what \<^verbatim>\<open>std::vector\<close>'s size
  constructor throws when a negative \<^verbatim>\<open>int\<close> has become a huge \<^verbatim>\<open>size_t\<close>.
  \<open>DivideError\<close> stands for the integer division that has no result (a zero divisor, or
  \<^verbatim>\<open>INT_MIN / -1\<close>). \<open>InvalidDimension\<close> and \<open>InvalidWorkerCount\<close> are the remaining two
  errors of the specification's taxonomy; no statement of the source raises them.
\<close>

datatype error =
  IndexOutOfRange
  | DimensionMismatch
  | InvalidDimension
  | InvalidWorkerCount
  | LengthError
  | DivideError

definition cell_at :: "cell list list \<Rightarrow> int \<Rightarrow> int \<Rightarrow> cell" where
  \<comment> \<open>\<^verbatim>\<open>data[i][j]\<close> read\<close>
  "cell_at d i j = d ! nat i ! nat j"

definition cell_upd :: "cell list list \<Rightarrow> int \<Rightarrow> int \<Rightarrow> cell \<Rightarrow> cell list list" where
  \<comment> \<open>\<^verbatim>\<open>data[i][j] = v\<close>\<close>
  "cell_upd d i j v = d[nat i := (d ! nat i)[nat j := v]]"

definition matrix_inv :: "matrix \<Rightarrow> bool" where
  \<comment> \<open>the class invariant: the storage has \<open>rows\<close> rows of \<open>cols\<close> cells each\<close>
  "matrix_inv m \<longleftrightarrow>
     0 \<le> rows m \<and> 0 \<le> cols m \<and> length (data m) = nat (rows m) \<and>
     (\<forall>r \<in> set (data m). length r = nat (cols m))"

subsection \<open>Constructor and element access\<close>

definition Matrix :: "int \<Rightarrow> int \<Rightarrow> error + matrix" where
  \<comment> \<open>\<^verbatim>\<open>Matrix(rows, cols) : rows(rows), cols(cols), data(rows, std::vector<int>(cols, 0))\<close>;
      the inner vector is built first\<close>
  "Matrix r c =
     (if c < 0 then Inl LengthError
      else if r < 0 then Inl LengthError
      else Inr \<lparr>rows = r, cols = c, data = replicate (nat r) (replicate (nat c) 0)\<rparr>)"

definition at :: "matrix \<Rightarrow> int \<Rightarrow> int \<Rightarrow> error + cell" where
  \<comment> \<open>\<^verbatim>\<open>at(row, col)\<close> used as a value\<close>
  "at m row col =
     (if row < 0 \<or> row \<ge> rows m \<or> col < 0 \<or> col \<ge> cols m then Inl IndexOutOfRange
      else Inr (cell_at (data m) row col))"

definition at_assign :: "matrix \<Rightarrow> int \<Rightarrow> int \<Rightarrow> cell \<Rightarrow> error + matrix" where
  \<comment> \<open>\<^verbatim>\<open>at(row, col) = v\<close>: a write through the reference that \<^verbatim>\<open>at\<close> returns\<close>
  "at_assign m row col v =
     (if row < 0 \<or> row \<ge> rows m \<or> col < 0 \<or> col \<ge> cols m then Inl IndexOutOfRange
      else Inr (m\<lparr>data := cell_upd (data m) row col v\<rparr>))"

subsection \<open>Random fill\<close>

text \<open>
  \<^verbatim>\<open>fill_increment_value\<close> makes its own generator \<^verbatim>\<open>gen\<close>, seeded from the random
  device, and a distribution \<^verbatim>\<open>dis(1, 10)\<close>, and stores \<^verbatim>\<open>dis(gen)\<close> into every cell.
  What the generator produces depends on the seed: the parameter \<open>gen\<close> of the model is the
  sequence of raw values from which the successive calls \<^verbatim>\<open>dis(gen)\<close> form their results,
  any sequence at all, and the loops thread the number of draws made so far.

  Modelled from the spec: \<^verbatim>\<open>std::uniform_int_distribution<>\<close> is a class of the C++
  standard library and no part of the source file. As the specification has it, a
  distribution made with \<open>(a, b)\<close> yields an integer of the inclusive range \<open>[a, b]\<close>. The model
  brings the raw value into that range; no general statement below depends on which member
  of the range comes out, or on how evenly.
\<close>

definition uniform_int_distribution :: "int \<Rightarrow> int \<Rightarrow> nat \<Rightarrow> int" where
  \<comment> \<open>Modelled from the spec: \<^verbatim>\<open>std::uniform_int_distribution<> dis(a, b)\<close>, then
      \<^verbatim>\<open>dis(gen)\<close> on a raw value of the generator\<close>
  "uniform_int_distribution a b raw = a + int raw mod (b - a + 1)"

function fill_cols ::
  "(nat \<Rightarrow> int) \<Rightarrow> (nat \<Rightarrow> nat) \<Rightarrow> matrix \<Rightarrow> int \<Rightarrow> int \<Rightarrow> nat \<Rightarrow> matrix \<times> nat" where
  \<comment> \<open>\<^verbatim>\<open>for (int j = 0; j < cols; ++j) data[i][j] = dis(gen)\<close>\<close>
  "fill_cols dis gen m i j g =
     (if j < cols m
      then fill_cols dis gen (m\<lparr>data := cell_upd (data m) i j (word_of_int (dis (gen g)))\<rparr>)
             i (j + 1) (Suc g)
      else (m, g))"
  by pat_completeness auto
termination
  by (relation "measure (\<lambda>(dis, gen, m, i, j, g). nat (cols m - j))") auto

declare fill_cols.simps [simp del]

function fill_rows ::
  "(nat \<Rightarrow> int) \<Rightarrow> (nat \<Rightarrow> nat) \<Rightarrow> matrix \<Rightarrow> int \<Rightarrow> nat \<Rightarrow> matrix \<times> nat" where
  \<comment> \<open>\<^verbatim>\<open>for (int i = 0; i < rows; ++i)\<close>\<close>
  "fill_rows dis gen m i g =
     (if i < rows m
      then (case fill_cols dis gen m i 0 g of (m', g') \<Rightarrow> fill_rows dis gen m' (i + 1) g')
      else (m, g))"
  by pat_completeness auto
termination
proof (relation "measure (\<lambda>(dis, gen, m, i, g). nat (rows m - i))")
  show "wf (measure (\<lambda>(dis, gen, m, i, g). nat (rows m - i)))"
    by simp
next
  fix dis :: "nat \<Rightarrow> int" and gen :: "nat \<Rightarrow> nat" and m m' :: matrix and i :: int
    and g g' :: nat
  assume lt: "i < rows m" and p: "(m', g') = fill_cols dis gen m i 0 g"
  have keep: "rows (fst (fill_cols dis gen m0 i0 j0 g0)) = rows m0" for m0 i0 j0 g0
    by (induction dis gen m0 i0 j0 g0 rule: fill_cols.induct) (subst fill_cols.simps, simp)
  from p have "rows m' = rows m"
    using keep [of m i 0 g] by (metis fst_conv)
  with lt show "((dis, gen, m', i + 1, g'), (dis, gen, m, i, g))
      \<in> measure (\<lambda>(dis, gen, m, i, g). nat (rows m - i))"
    by simp
qed

declare fill_rows.simps [simp del]

definition fill_increment_value :: "(nat \<Rightarrow> nat) \<Rightarrow> matrix \<Rightarrow> matrix" where
  \<comment> \<open>\<^verbatim>\<open>std::uniform_int_distribution<> dis(1, 10)\<close>, then the two loops\<close>
  "fill_increment_value gen m = fst (fill_rows (uniform_int_distribution 1 10) gen m 0 0)"

subsection \<open>Multiplication\<close>

text \<open>
  A multiplication works on three objects: the receiver \<^verbatim>\<open>*this\<close>, the argument
  \<^verbatim>\<open>other\<close> and the local \<^verbatim>\<open>result\<close>. The loops are functions on this frame, so that
  what they write, and what they leave alone, is a property to be proved.
\<close>

record frame =
  this_mat :: matrix
  other_mat :: matrix
  result_mat :: matrix

definition mac :: "frame \<Rightarrow> int \<Rightarrow> int \<Rightarrow> int \<Rightarrow> frame" where
  \<comment> \<open>\<^verbatim>\<open>result.data[i][j] += this->data[i][k] * other.data[k][j]\<close>\<close>
  "mac st i j k =
     st\<lparr>result_mat := (result_mat st)\<lparr>data :=
       cell_upd (data (result_mat st)) i j
         (cell_at (data (result_mat st)) i j
            + cell_at (data (this_mat st)) i k * cell_at (data (other_mat st)) k j)\<rparr>\<rparr>"

function inner_loop :: "frame \<Rightarrow> int \<Rightarrow> int \<Rightarrow> int \<Rightarrow> frame" where
  \<comment> \<open>\<^verbatim>\<open>for (int k = 0; k < this->cols; ++k)\<close>, the same in both multiplications\<close>
  "inner_loop st i j k =
     (if k < cols (this_mat st) then inner_loop (mac st i j k) i j (k + 1) else st)"
  by pat_completeness auto
termination
  by (relation "measure (\<lambda>(st, i, j, k). nat (cols (this_mat st) - k))") (auto simp: mac_def)

declare inner_loop.simps [simp del]

function col_loop :: "frame \<Rightarrow> int \<Rightarrow> int \<Rightarrow> frame" where
  \<comment> \<open>\<^verbatim>\<open>for (int j = 0; j < other.cols; ++j)\<close>\<close>
  "col_loop st i j =
     (if j < cols (other_mat st) then col_loop (inner_loop st i j 0) i (j + 1) else st)"
  by pat_completeness auto
termination
proof (relation "measure (\<lambda>(st, i, j). nat (cols (other_mat st) - j))")
  show "wf (measure (\<lambda>(st, i, j). nat (cols (other_mat st) - j)))"
    by simp
next
  fix st :: frame and i j :: int
  assume lt: "j < cols (other_mat st)"
  have keep: "other_mat (inner_loop s a b c) = other_mat s" for s a b c
    by (induction s a b c rule: inner_loop.induct)
      (subst inner_loop.simps, simp add: mac_def)
  from lt show "((inner_loop st i j 0, i, j + 1), (st, i, j))
      \<in> measure (\<lambda>(st, i, j). nat (cols (other_mat st) - j))"
    by (simp add: keep)
qed

declare col_loop.simps [simp del]

function row_loop :: "frame \<Rightarrow> int \<Rightarrow> frame" where
  \<comment> \<open>\<^verbatim>\<open>for (int i = 0; i < this->rows; ++i)\<close>\<close>
  "row_loop st i =
     (if i < rows (this_mat st) then row_loop (col_loop st i 0) (i + 1) else st)"
  by pat_completeness auto
termination
proof (relation "measure (\<lambda>(st, i). nat (rows (this_mat st) - i))")
  show "wf (measure (\<lambda>(st, i). nat (rows (this_mat st) - i)))"
    by simp
next
  fix st :: frame and i :: int
  assume lt: "i < rows (this_mat st)"
  have keep_k: "this_mat (inner_loop s a b c) = this_mat s" for s a b c
    by (induction s a b c rule: inner_loop.induct)
      (subst inner_loop.simps, simp add: mac_def)
  have keep: "this_mat (col_loop s a b) = this_mat s" for s a b
    by (induction s a b rule: col_loop.induct)
      (subst col_loop.simps, simp add: keep_k)
  from lt show "((col_loop st i 0, i + 1), (st, i))
      \<in> measure (\<lambda>(st, i). nat (rows (this_mat st) - i))"
    by (simp add: keep)
qed

declare row_loop.simps [simp del]

definition multiply_run :: "matrix \<Rightarrow> matrix \<Rightarrow> error + frame" where
  \<comment> \<open>the body of \<^verbatim>\<open>multiply\<close>, up to the \<^verbatim>\<open>return\<close>: the frame it leaves\<close>
  "multiply_run A B =
     (if cols A \<noteq> rows B then Inl DimensionMismatch
      else case Matrix (rows A) (cols B) of
        Inl e \<Rightarrow> Inl e
      | Inr res \<Rightarrow> Inr (row_loop \<lparr>this_mat = A, other_mat = B, result_mat = res\<rparr> 0))"

definition multiply :: "matrix \<Rightarrow> matrix \<Rightarrow> error + matrix" where
  \<comment> \<open>\<^verbatim>\<open>A.multiply(B)\<close>: the value returned\<close>
  "multiply A B = map_sum id result_mat (multiply_run A B)"

text \<open>
  The parallel multiplication starts \<^verbatim>\<open>num_threads\<close> threads; thread \<open>i\<close> runs the
  lambda with its own copy of \<open>i\<close> and adds into the cells of \<^verbatim>\<open>result\<close> whose flattened
  index lies in its range. The model runs the thread bodies one after the other, in the order
  in which the threads are started, each to its end, before the joins; \<open>run_threads\<close> below
  runs them in any other order. What the machine may refuse (memory for the vectors, a
  thread) is outside the model.
\<close>

definition thread_start :: "int \<Rightarrow> int \<Rightarrow> int" where
  \<comment> \<open>\<^verbatim>\<open>int start = i * elements_per_thread\<close>\<close>
  "thread_start elements_per_thread i = int_mul i elements_per_thread"

definition thread_end :: "frame \<Rightarrow> int \<Rightarrow> int \<Rightarrow> int \<Rightarrow> int" where
  \<comment> \<open>\<^verbatim>\<open>int end = (i == num_threads - 1) ? (this->rows * other.cols)
        : ((i + 1) * elements_per_thread)\<close>\<close>
  "thread_end st num_threads elements_per_thread i =
     (if i = num_threads - 1 then int_mul (rows (this_mat st)) (cols (other_mat st))
      else int_mul (i + 1) elements_per_thread)"

function index_loop :: "frame \<Rightarrow> int \<Rightarrow> int \<Rightarrow> frame" where
  \<comment> \<open>\<^verbatim>\<open>for (int index = start; index < end; ++index)\<close> with
      \<^verbatim>\<open>row = index / other.cols\<close> and \<^verbatim>\<open>col = index % other.cols\<close>\<close>
  "index_loop st index end =
     (if index < end
      then index_loop
             (inner_loop st (int_quot index (cols (other_mat st)))
                (int_rem index (cols (other_mat st))) 0)
             (index + 1) end
      else st)"
  by pat_completeness auto
termination
  by (relation "measure (\<lambda>(st, index, end). nat (end - index))") auto

declare index_loop.simps [simp del]

definition thread_body :: "frame \<Rightarrow> int \<Rightarrow> int \<Rightarrow> int \<Rightarrow> frame" where
  \<comment> \<open>the lambda of thread \<open>i\<close>\<close>
  "thread_body st num_threads elements_per_thread i =
     index_loop st (thread_start elements_per_thread i)
       (thread_end st num_threads elements_per_thread i)"

function thread_loop :: "frame \<Rightarrow> int \<Rightarrow> int \<Rightarrow> int \<Rightarrow> frame" where
  \<comment> \<open>\<^verbatim>\<open>for (int i = 0; i < num_threads; ++i)\<close>\<close>
  "thread_loop st num_threads elements_per_thread i =
     (if i < num_threads
      then thread_loop (thread_body st num_threads elements_per_thread i)
             num_threads elements_per_thread (i + 1)
      else st)"
  by pat_completeness auto
termination
  by (relation "measure (\<lambda>(st, num_threads, elements_per_thread, i). nat (num_threads - i))") auto

declare thread_loop.simps [simp del]

fun run_threads :: "frame \<Rightarrow> int \<Rightarrow> int \<Rightarrow> int list \<Rightarrow> frame" where
  \<comment> \<open>the thread bodies, each to its end, in the order of the list\<close>
  "run_threads st num_threads ept [] = st"
| "run_threads st num_threads ept (i # order) =
     run_threads (thread_body st num_threads ept i) num_threads ept order"

definition elements_per_thread :: "matrix \<Rightarrow> matrix \<Rightarrow> int \<Rightarrow> int" where
  \<comment> \<open>\<^verbatim>\<open>int elements_per_thread = this->rows * other.cols / num_threads\<close>,
      once the divisor is known to give a quotient\<close>
  "elements_per_thread A B num_threads = int_quot (int_mul (rows A) (cols B)) num_threads"

definition multiplyParallel_run :: "matrix \<Rightarrow> matrix \<Rightarrow> int \<Rightarrow> error + frame" where
  \<comment> \<open>the body of \<^verbatim>\<open>multiplyParallel\<close>, up to the \<^verbatim>\<open>return\<close>\<close>
  "multiplyParallel_run A B num_threads =
     (if cols A \<noteq> rows B then Inl DimensionMismatch
      else case Matrix (rows A) (cols B) of
        Inl e \<Rightarrow> Inl e
      | Inr res \<Rightarrow>
          let total = int_mul (rows A) (cols B) in
          if num_threads = 0 \<or> (total = INT_MIN \<and> num_threads = - 1) then Inl DivideError
          else Inr (thread_loop \<lparr>this_mat = A, other_mat = B, result_mat = res\<rparr>
                      num_threads (elements_per_thread A B num_threads) 0))"

definition multiplyParallel :: "matrix \<Rightarrow> matrix \<Rightarrow> int \<Rightarrow> error + matrix" where
  \<comment> \<open>\<^verbatim>\<open>A.multiplyParallel(B, num_threads)\<close>: the value returned\<close>
  "multiplyParallel A B num_threads = map_sum id result_mat (multiplyParallel_run A B num_threads)"

subsection \<open>Matrix values a program can hold\<close>

text \<open>
  The fields are private, so a matrix value comes from the constructor and from the public
  members only: a fill, a write through \<^verbatim>\<open>at\<close>, and a multiplication, which yields its
  result and leaves its two operands behind.
\<close>

inductive reachable :: "matrix \<Rightarrow> bool" where
  construct: "Matrix r c = Inr m \<Longrightarrow> reachable m"
| filled: "reachable m \<Longrightarrow> reachable (fill_increment_value gen m)"
| assigned: "reachable m \<Longrightarrow> at_assign m row col v = Inr m' \<Longrightarrow> reachable m'"
| product: "reachable A \<Longrightarrow> reachable B \<Longrightarrow> multiply_run A B = Inr st \<Longrightarrow>
    m \<in> {this_mat st, other_mat st, result_mat st} \<Longrightarrow> reachable m"
| parallel_product: "reachable A \<Longrightarrow> reachable B \<Longrightarrow>
    multiplyParallel_run A B num_threads = Inr st \<Longrightarrow>
    m \<in> {this_mat st, other_mat st, result_mat st} \<Longrightarrow> reachable m"

subsection \<open>Notions of the specification\<close>

definition dot :: "matrix \<Rightarrow> matrix \<Rightarrow> int \<Rightarrow> int \<Rightarrow> cell" where
  \<comment> \<open>the specification's \<open>\<Sum>k = 0 .. A.colCount - 1. A[i][k] * B[k][j]\<close>, in cell arithmetic\<close>
  "dot A B i j = (\<Sum>k = 0..<cols A. cell_at (data A) i k * cell_at (data B) k j)"

definition same_frame :: "frame \<Rightarrow> frame \<Rightarrow> bool" where
  \<comment> \<open>only cell values of \<^verbatim>\<open>result\<close> differ\<close>
  "same_frame st st' \<longleftrightarrow>
     this_mat st' = this_mat st \<and> other_mat st' = other_mat st \<and>
     rows (result_mat st') = rows (result_mat st) \<and>
     cols (result_mat st') = cols (result_mat st) \<and>
     map length (data (result_mat st')) = map length (data (result_mat st))"

definition frame_inv :: "frame \<Rightarrow> bool" where
  \<comment> \<open>\<^verbatim>\<open>result\<close> is a matrix of the product's shape\<close>
  "frame_inv st \<longleftrightarrow>
     matrix_inv (result_mat st) \<and> rows (result_mat st) = rows (this_mat st) \<and>
     cols (result_mat st) = cols (other_mat st)"

definition same_shape :: "matrix \<Rightarrow> matrix \<Rightarrow> bool" where
  \<comment> \<open>the same dimensions and the same storage layout\<close>
  "same_shape m m' \<longleftrightarrow>
     rows m' = rows m \<and> cols m' = cols m \<and> map length (data m') = map length (data m)"

subsection \<open>Concrete matrices\<close>

definition scenario_A :: matrix where
  "scenario_A = \<lparr>rows = 2, cols = 2, data = [[1, 2], [3, 4]]\<rparr>"

definition scenario_B :: matrix where
  "scenario_B = \<lparr>rows = 2, cols = 2, data = [[5, 6], [7, 8]]\<rparr>"

definition column_of_ones :: "int \<Rightarrow> matrix" where
  \<comment> \<open>an \<open>n \<times> 1\<close> matrix\<close>
  "column_of_ones n = \<lparr>rows = n, cols = 1, data = replicate (nat n) [1]\<rparr>"

definition row_of_ones :: "int \<Rightarrow> matrix" where
  \<comment> \<open>a \<open>1 \<times> n\<close> matrix\<close>
  "row_of_ones n = \<lparr>rows = 1, cols = n, data = [replicate (nat n) 1]\<rparr>"

section \<open>Properties of the loops\<close>

subsection \<open>Integers and cells\<close>


lemma wrap_int_id: "INT_MIN \<le> x \<Longrightarrow> x \<le> INT_MAX \<Longrightarrow> wrap_int x = x"
  by (simp add: wrap_int_def INT_MIN_def INT_MAX_def)

lemma int_quot_nonneg: "0 \<le> a \<Longrightarrow> 0 < b \<Longrightarrow> int_quot a b = a div b"
  by (cases "a = 0") (simp_all add: int_quot_def)

lemma int_rem_nonneg: "0 \<le> a \<Longrightarrow> 0 < b \<Longrightarrow> int_rem a b = a mod b"
  by (simp add: int_rem_def int_quot_nonneg minus_mult_div_eq_mod)

lemma shape_cell_upd: "map length (cell_upd d i j v) = map length d"
proof (cases "nat i < length d")
  case True
  then show ?thesis
    by (simp add: cell_upd_def map_update list_update_same_conv)
next
  case False
  then show ?thesis
    by (simp add: cell_upd_def list_update_beyond)
qed

lemma cell_at_cell_upd:
  assumes "0 \<le> i" "0 \<le> j" "nat i < length d" "nat j < length (d ! nat i)" "0 \<le> i'" "0 \<le> j'"
  shows "cell_at (cell_upd d i j v) i' j' = (if i' = i \<and> j' = j then v else cell_at d i' j')"
  using assms by (auto simp: cell_at_def cell_upd_def nth_list_update)

lemma map_eq_replicate_iff:
  "map f xs = replicate n c \<longleftrightarrow> length xs = n \<and> (\<forall>x \<in> set xs. f x = c)"
proof (induction xs arbitrary: n)
  case Nil
  then show ?case by auto
next
  case (Cons x xs)
  then show ?case by (cases n) auto
qed

lemma matrix_inv_shape:
  "matrix_inv m \<longleftrightarrow> 0 \<le> rows m \<and> 0 \<le> cols m \<and> map length (data m) = replicate (nat (rows m)) (nat (cols m))"
  by (simp add: matrix_inv_def map_eq_replicate_iff)

lemma same_frame_refl: "same_frame st st"
  by (simp add: same_frame_def)

lemma same_frame_trans: "same_frame a b \<Longrightarrow> same_frame b c \<Longrightarrow> same_frame a c"
  by (simp add: same_frame_def)

lemma same_frame_mac: "same_frame st (mac st i j k)"
  by (simp add: same_frame_def mac_def shape_cell_upd)

lemma same_frame_inner_loop: "same_frame st (inner_loop st i j k)"
proof (induction st i j k rule: inner_loop.induct)
  case (1 st i j k)
  show ?case
  proof (cases "k < cols (this_mat st)")
    case True
    with 1 have "same_frame (mac st i j k) (inner_loop st i j k)"
      by (subst inner_loop.simps) simp
    with same_frame_mac show ?thesis
      by (rule same_frame_trans)
  next
    case False
    then show ?thesis
      by (subst inner_loop.simps) (simp add: same_frame_refl)
  qed
qed

lemma same_frame_col_loop: "same_frame st (col_loop st i j)"
proof (induction st i j rule: col_loop.induct)
  case (1 st i j)
  show ?case
  proof (cases "j < cols (other_mat st)")
    case True
    with 1 have "same_frame (inner_loop st i j 0) (col_loop st i j)"
      by (subst col_loop.simps) simp
    with same_frame_inner_loop show ?thesis
      by (rule same_frame_trans)
  next
    case False
    then show ?thesis
      by (subst col_loop.simps) (simp add: same_frame_refl)
  qed
qed

lemma same_frame_row_loop: "same_frame st (row_loop st i)"
proof (induction st i rule: row_loop.induct)
  case (1 st i)
  show ?case
  proof (cases "i < rows (this_mat st)")
    case True
    with 1 have "same_frame (col_loop st i 0) (row_loop st i)"
      by (subst row_loop.simps) simp
    with same_frame_col_loop show ?thesis
      by (rule same_frame_trans)
  next
    case False
    then show ?thesis
      by (subst row_loop.simps) (simp add: same_frame_refl)
  qed
qed

lemma same_frame_index_loop: "same_frame st (index_loop st s e)"
proof (induction st s e rule: index_loop.induct)
  case (1 st s e)
  show ?case
  proof (cases "s < e")
    case True
    with 1 have "same_frame (inner_loop st (int_quot s (cols (other_mat st)))
        (int_rem s (cols (other_mat st))) 0) (index_loop st s e)"
      by (subst index_loop.simps) simp
    with same_frame_inner_loop show ?thesis
      by (rule same_frame_trans)
  next
    case False
    then show ?thesis
      by (subst index_loop.simps) (simp add: same_frame_refl)
  qed
qed

lemma same_frame_thread_body: "same_frame st (thread_body st n ept i)"
  by (simp add: thread_body_def same_frame_index_loop)

lemma same_frame_thread_loop: "same_frame st (thread_loop st n ept i)"
proof (induction st n ept i rule: thread_loop.induct)
  case (1 st n ept i)
  show ?case
  proof (cases "i < n")
    case True
    with 1 have "same_frame (thread_body st n ept i) (thread_loop st n ept i)"
      by (subst thread_loop.simps) simp
    with same_frame_thread_body show ?thesis
      by (rule same_frame_trans)
  next
    case False
    then show ?thesis
      by (subst thread_loop.simps) (simp add: same_frame_refl)
  qed
qed

lemma frame_inv_same: "same_frame st st' \<Longrightarrow> frame_inv st \<Longrightarrow> frame_inv st'"
  by (simp add: same_frame_def frame_inv_def matrix_inv_shape)

subsection \<open>The sequential loops\<close>


lemma sum_int_head:
  fixes f :: "int \<Rightarrow> cell"
  assumes "k < n"
  shows "(\<Sum>x = k..<n. f x) = f k + (\<Sum>x = k + 1..<n. f x)"
proof -
  from assms have "{k..<n} = insert k {k + 1..<n}"
    by auto
  then show ?thesis
    by simp
qed

lemma frame_inv_bounds:
  assumes "frame_inv st" "0 \<le> i" "i < rows (this_mat st)" "0 \<le> j" "j < cols (other_mat st)"
  shows "nat i < length (data (result_mat st))"
    and "nat j < length (data (result_mat st) ! nat i)"
proof -
  from assms show a: "nat i < length (data (result_mat st))"
    by (simp add: frame_inv_def matrix_inv_def)
  then have "data (result_mat st) ! nat i \<in> set (data (result_mat st))"
    by simp
  with assms show "nat j < length (data (result_mat st) ! nat i)"
    by (simp add: frame_inv_def matrix_inv_def)
qed

lemma mac_cell:
  assumes "frame_inv st" "0 \<le> i" "i < rows (this_mat st)" "0 \<le> j" "j < cols (other_mat st)"
    and "0 \<le> i'" "0 \<le> j'"
  shows "cell_at (data (result_mat (mac st i j k))) i' j' =
    (if i' = i \<and> j' = j
     then cell_at (data (result_mat st)) i j
       + cell_at (data (this_mat st)) i k * cell_at (data (other_mat st)) k j
     else cell_at (data (result_mat st)) i' j')"
  using assms frame_inv_bounds [OF assms(1-5)]
  by (simp add: mac_def cell_at_cell_upd)

lemma inner_loop_cell:
  assumes "frame_inv st" "0 \<le> i" "i < rows (this_mat st)" "0 \<le> j" "j < cols (other_mat st)"
    and "0 \<le> i'" "0 \<le> j'"
  shows "cell_at (data (result_mat (inner_loop st i j k))) i' j' =
    (if i' = i \<and> j' = j
     then cell_at (data (result_mat st)) i j
       + (\<Sum>x = k..<cols (this_mat st).
            cell_at (data (this_mat st)) i x * cell_at (data (other_mat st)) x j)
     else cell_at (data (result_mat st)) i' j')"
  using assms
proof (induction st i j k rule: inner_loop.induct)
  case (1 st i j k)
  show ?case
  proof (cases "k < cols (this_mat st)")
    case True
    let ?st = "mac st i j k"
    have sf: "same_frame st ?st"
      by (rule same_frame_mac)
    then have inv: "frame_inv ?st"
      using "1.prems"(1) by (rule frame_inv_same)
    from sf have eqs: "this_mat ?st = this_mat st" "other_mat ?st = other_mat st"
      by (simp_all add: same_frame_def)
    have step: "inner_loop st i j k = inner_loop ?st i j (k + 1)"
      using True by (subst inner_loop.simps) simp
    have ih: "cell_at (data (result_mat (inner_loop ?st i j (k + 1)))) i' j' =
      (if i' = i \<and> j' = j
       then cell_at (data (result_mat ?st)) i j
         + (\<Sum>x = k + 1..<cols (this_mat st).
              cell_at (data (this_mat st)) i x * cell_at (data (other_mat st)) x j)
       else cell_at (data (result_mat ?st)) i' j')"
      using "1.IH" [OF True inv] "1.prems" by (simp add: eqs)
    show ?thesis
      unfolding step ih
      using "1.prems" True
      by (simp add: mac_cell sum_int_head [OF True] add.assoc)
  next
    case False
    then show ?thesis
      by (subst inner_loop.simps) simp
  qed
qed

lemma inner_loop_dot:
  assumes "frame_inv st" "0 \<le> i" "i < rows (this_mat st)" "0 \<le> j" "j < cols (other_mat st)"
    and "0 \<le> i'" "0 \<le> j'"
  shows "cell_at (data (result_mat (inner_loop st i j 0))) i' j' =
    (if i' = i \<and> j' = j
     then cell_at (data (result_mat st)) i j + dot (this_mat st) (other_mat st) i j
     else cell_at (data (result_mat st)) i' j')"
  using inner_loop_cell [OF assms, of 0] by (simp add: dot_def)

lemma col_loop_cell:
  assumes "frame_inv st" "0 \<le> i" "i < rows (this_mat st)" "0 \<le> j" "0 \<le> i'" "0 \<le> j'"
  shows "cell_at (data (result_mat (col_loop st i j))) i' j' =
    (if i' = i \<and> j \<le> j' \<and> j' < cols (other_mat st)
     then cell_at (data (result_mat st)) i' j' + dot (this_mat st) (other_mat st) i j'
     else cell_at (data (result_mat st)) i' j')"
  using assms
proof (induction st i j rule: col_loop.induct)
  case (1 st i j)
  show ?case
  proof (cases "j < cols (other_mat st)")
    case True
    let ?st = "inner_loop st i j 0"
    have sf: "same_frame st ?st"
      by (rule same_frame_inner_loop)
    then have inv: "frame_inv ?st"
      using "1.prems"(1) by (rule frame_inv_same)
    from sf have eqs: "this_mat ?st = this_mat st" "other_mat ?st = other_mat st"
      by (simp_all add: same_frame_def)
    have step: "col_loop st i j = col_loop ?st i (j + 1)"
      using True by (subst col_loop.simps) simp
    have ih: "cell_at (data (result_mat (col_loop ?st i (j + 1)))) i' j' =
      (if i' = i \<and> j + 1 \<le> j' \<and> j' < cols (other_mat st)
       then cell_at (data (result_mat ?st)) i' j' + dot (this_mat st) (other_mat st) i j'
       else cell_at (data (result_mat ?st)) i' j')"
      using "1.IH" [OF True inv] "1.prems" by (simp add: eqs)
    have one: "cell_at (data (result_mat ?st)) i' j' =
      (if i' = i \<and> j' = j
       then cell_at (data (result_mat st)) i j + dot (this_mat st) (other_mat st) i j
       else cell_at (data (result_mat st)) i' j')"
      using "1.prems" True by (intro inner_loop_dot) simp_all
    show ?thesis
      unfolding step ih one using True by auto
  next
    case False
    then show ?thesis
      by (subst col_loop.simps) auto
  qed
qed

lemma row_loop_cell:
  assumes "frame_inv st" "0 \<le> i" "0 \<le> i'" "0 \<le> j'"
  shows "cell_at (data (result_mat (row_loop st i))) i' j' =
    (if i \<le> i' \<and> i' < rows (this_mat st) \<and> j' < cols (other_mat st)
     then cell_at (data (result_mat st)) i' j' + dot (this_mat st) (other_mat st) i' j'
     else cell_at (data (result_mat st)) i' j')"
  using assms
proof (induction st i rule: row_loop.induct)
  case (1 st i)
  show ?case
  proof (cases "i < rows (this_mat st)")
    case True
    let ?st = "col_loop st i 0"
    have sf: "same_frame st ?st"
      by (rule same_frame_col_loop)
    then have inv: "frame_inv ?st"
      using "1.prems"(1) by (rule frame_inv_same)
    from sf have eqs: "this_mat ?st = this_mat st" "other_mat ?st = other_mat st"
      by (simp_all add: same_frame_def)
    have step: "row_loop st i = row_loop ?st (i + 1)"
      using True by (subst row_loop.simps) simp
    have ih: "cell_at (data (result_mat (row_loop ?st (i + 1)))) i' j' =
      (if i + 1 \<le> i' \<and> i' < rows (this_mat st) \<and> j' < cols (other_mat st)
       then cell_at (data (result_mat ?st)) i' j' + dot (this_mat st) (other_mat st) i' j'
       else cell_at (data (result_mat ?st)) i' j')"
      using "1.IH" [OF True inv] "1.prems" by (simp add: eqs)
    have one: "cell_at (data (result_mat ?st)) i' j' =
      (if i' = i \<and> 0 \<le> j' \<and> j' < cols (other_mat st)
       then cell_at (data (result_mat st)) i' j' + dot (this_mat st) (other_mat st) i j'
       else cell_at (data (result_mat st)) i' j')"
      using "1.prems" True by (intro col_loop_cell) simp_all
    show ?thesis
      unfolding step ih one using True "1.prems" by auto
  next
    case False
    then show ?thesis
      by (subst row_loop.simps) auto
  qed
qed

subsection \<open>Flattened indices\<close>


lemma flat_index_pos:
  fixes s r c :: int
  assumes "0 \<le> s" "s < r * c" "0 \<le> r" "0 \<le> c"
  shows "0 < c"
  using assms by (cases "c = 0") simp_all

lemma flat_index_row:
  fixes s r c :: int
  assumes "0 \<le> s" "s < r * c" "0 < c"
  shows "0 \<le> s div c" "s div c < r" "0 \<le> s mod c" "s mod c < c"
proof -
  show "0 \<le> s div c" using assms by (simp add: pos_imp_zdiv_nonneg_iff)
  show "s div c < r"
  proof (rule ccontr)
    assume "\<not> s div c < r"
    then have "r * c \<le> (s div c) * c"
      using assms(3) by (simp add: mult_right_mono)
    moreover have "(s div c) * c + s mod c = s"
      by simp
    moreover have "0 \<le> s mod c"
      using assms(3) by simp
    ultimately show False
      using assms(2) by linarith
  qed
  show "0 \<le> s mod c" "s mod c < c" using assms by simp_all
qed

lemma flat_index_unique:
  fixes s c i j :: int
  assumes "0 < c" "0 \<le> j" "j < c"
  shows "(i = s div c \<and> j = s mod c) \<longleftrightarrow> i * c + j = s"
proof
  assume "i = s div c \<and> j = s mod c"
  then show "i * c + j = s" by simp
next
  assume "i * c + j = s"
  then have s: "s = j + i * c" by simp
  from assms show "i = s div c \<and> j = s mod c"
    unfolding s by simp
qed

subsection \<open>The parallel loops\<close>


lemma flat_index_less:
  fixes i j r c :: int
  assumes "0 \<le> i" "i < r" "0 \<le> j" "j < c"
  shows "i * c + j < r * c"
proof -
  from assms have "(i + 1) * c \<le> r * c"
    by (intro mult_right_mono) simp_all
  with assms show ?thesis
    by (simp add: algebra_simps)
qed

lemma frame_inv_dims:
  assumes "frame_inv st"
  shows "0 \<le> rows (this_mat st)" "0 \<le> cols (other_mat st)"
  using assms by (simp_all add: frame_inv_def matrix_inv_def)

lemma index_loop_cell:
  assumes "frame_inv st" "0 \<le> s" "e \<le> rows (this_mat st) * cols (other_mat st)"
    and "0 \<le> i'" "0 \<le> j'" "j' < cols (other_mat st)"
  shows "cell_at (data (result_mat (index_loop st s e))) i' j' =
    (if s \<le> i' * cols (other_mat st) + j' \<and> i' * cols (other_mat st) + j' < e
     then cell_at (data (result_mat st)) i' j' + dot (this_mat st) (other_mat st) i' j'
     else cell_at (data (result_mat st)) i' j')"
  using assms
proof (induction st s e rule: index_loop.induct)
  case (1 st s e)
  let ?c = "cols (other_mat st)"
  let ?r = "rows (this_mat st)"
  show ?case
  proof (cases "s < e")
    case True
    with "1.prems" have lt: "s < ?r * ?c"
      by simp
    have pos: "0 < ?c"
      using "1.prems"(2) lt frame_inv_dims [OF "1.prems"(1)] by (rule flat_index_pos)
    have q: "int_quot s ?c = s div ?c" and r: "int_rem s ?c = s mod ?c"
      using "1.prems"(2) pos by (simp_all add: int_quot_nonneg int_rem_nonneg)
    note rc = flat_index_row [OF "1.prems"(2) lt pos]
    let ?st = "inner_loop st (int_quot s ?c) (int_rem s ?c) 0"
    have sf: "same_frame st ?st"
      by (rule same_frame_inner_loop)
    then have inv: "frame_inv ?st"
      using "1.prems"(1) by (rule frame_inv_same)
    from sf have eqs: "this_mat ?st = this_mat st" "other_mat ?st = other_mat st"
      by (simp_all add: same_frame_def)
    have step: "index_loop st s e = index_loop ?st (s + 1) e"
      using True by (subst index_loop.simps) simp
    have ih: "cell_at (data (result_mat (index_loop ?st (s + 1) e))) i' j' =
      (if s + 1 \<le> i' * ?c + j' \<and> i' * ?c + j' < e
       then cell_at (data (result_mat ?st)) i' j' + dot (this_mat st) (other_mat st) i' j'
       else cell_at (data (result_mat ?st)) i' j')"
      using "1.IH" [OF True inv] "1.prems" by (simp add: eqs)
    have one: "cell_at (data (result_mat ?st)) i' j' =
      (if i' = s div ?c \<and> j' = s mod ?c
       then cell_at (data (result_mat st)) (s div ?c) (s mod ?c)
         + dot (this_mat st) (other_mat st) (s div ?c) (s mod ?c)
       else cell_at (data (result_mat st)) i' j')"
      unfolding q r using "1.prems" rc by (intro inner_loop_dot) simp_all
    have u: "(i' = s div ?c \<and> j' = s mod ?c) \<longleftrightarrow> i' * ?c + j' = s"
      using pos "1.prems"(5,6) by (rule flat_index_unique)
    have one': "cell_at (data (result_mat ?st)) i' j' =
      (if i' * ?c + j' = s
       then cell_at (data (result_mat st)) i' j' + dot (this_mat st) (other_mat st) i' j'
       else cell_at (data (result_mat st)) i' j')"
      using one u by auto
    show ?thesis
      unfolding step ih one' using True by auto
  next
    case False
    then show ?thesis
      by (subst index_loop.simps) auto
  qed
qed

lemma index_range_no_wrap:
  fixes i n ept t :: int
  assumes "0 \<le> t" "t \<le> INT_MAX" "1 \<le> n" "ept = t div n" "0 \<le> i" "i \<le> n"
  shows "0 \<le> i * ept" "i * ept \<le> t" "int_mul i ept = i * ept"
proof -
  from assms have e: "0 \<le> ept"
    by (simp add: pos_imp_zdiv_nonneg_iff)
  with assms show a: "0 \<le> i * ept"
    by simp
  have "n * ept + t mod n = t"
    using assms(4) by simp
  moreover have "0 \<le> t mod n"
    using assms(3) by simp
  ultimately have "n * ept \<le> t"
    by linarith
  moreover have "i * ept \<le> n * ept"
    using assms(6) e by (rule mult_right_mono)
  ultimately show b: "i * ept \<le> t"
    by linarith
  from a b assms(2) show "int_mul i ept = i * ept"
    by (simp add: int_mul_def wrap_int_id INT_MIN_def)
qed

lemma thread_loop_cell:
  assumes "frame_inv st" "rows (this_mat st) * cols (other_mat st) \<le> INT_MAX" "1 \<le> n"
    and "ept = (rows (this_mat st) * cols (other_mat st)) div n"
    and "0 \<le> i" "0 \<le> i'" "i' < rows (this_mat st)" "0 \<le> j'" "j' < cols (other_mat st)"
  shows "cell_at (data (result_mat (thread_loop st n ept i))) i' j' =
    (if i < n \<and> i * ept \<le> i' * cols (other_mat st) + j'
     then cell_at (data (result_mat st)) i' j' + dot (this_mat st) (other_mat st) i' j'
     else cell_at (data (result_mat st)) i' j')"
  using assms
proof (induction st n ept i rule: thread_loop.induct)
  case (1 st n ept i)
  let ?c = "cols (other_mat st)"
  let ?r = "rows (this_mat st)"
  let ?t = "?r * ?c"
  let ?x = "i' * ?c + j'"
  have t0: "0 \<le> ?t"
    using frame_inv_dims [OF "1.prems"(1)] by simp
  have x: "?x < ?t"
    using "1.prems" by (intro flat_index_less) simp_all
  have tot: "int_mul ?r ?c = ?t"
    using t0 "1.prems"(2) by (simp add: int_mul_def wrap_int_id INT_MIN_def)
  show ?case
  proof (cases "i < n")
    case True
    let ?st = "thread_body st n ept i"
    have sf: "same_frame st ?st"
      by (rule same_frame_thread_body)
    then have inv: "frame_inv ?st"
      using "1.prems"(1) by (rule frame_inv_same)
    from sf have eqs: "this_mat ?st = this_mat st" "other_mat ?st = other_mat st"
      by (simp_all add: same_frame_def)
    have step: "thread_loop st n ept i = thread_loop ?st n ept (i + 1)"
      using True by (subst thread_loop.simps) simp
    have ih: "cell_at (data (result_mat (thread_loop ?st n ept (i + 1)))) i' j' =
      (if i + 1 < n \<and> (i + 1) * ept \<le> ?x
       then cell_at (data (result_mat ?st)) i' j' + dot (this_mat st) (other_mat st) i' j'
       else cell_at (data (result_mat ?st)) i' j')"
      using "1.IH" [OF True inv, unfolded eqs, OF "1.prems"(2,3,4) _ "1.prems"(6,7,8,9)]
        "1.prems"(5) by simp
    have s: "0 \<le> i * ept" "thread_start ept i = i * ept"
      using index_range_no_wrap [OF t0 "1.prems"(2,3,4,5)] True
      by (simp_all add: thread_start_def)
    have e: "thread_end st n ept i = (if i = n - 1 then ?t else (i + 1) * ept)"
      "thread_end st n ept i \<le> ?t"
      using index_range_no_wrap [OF t0 "1.prems"(2,3,4), of "i + 1"] "1.prems"(5) True tot
      by (simp_all add: thread_end_def)
    have one: "cell_at (data (result_mat ?st)) i' j' =
      (if i * ept \<le> ?x \<and> ?x < thread_end st n ept i
       then cell_at (data (result_mat st)) i' j' + dot (this_mat st) (other_mat st) i' j'
       else cell_at (data (result_mat st)) i' j')"
      unfolding thread_body_def s(2)
      using "1.prems" s(1) e(2) by (intro index_loop_cell) simp_all
    have "0 \<le> ept"
      using t0 "1.prems"(3,4) by (simp add: pos_imp_zdiv_nonneg_iff)
    then have mono: "i * ept \<le> (i + 1) * ept"
      by (simp add: algebra_simps)
    show ?thesis
      unfolding step ih one e(1) using True x mono by auto
  next
    case False
    then show ?thesis
      by (subst thread_loop.simps) auto
  qed
qed

subsection \<open>The two products\<close>


lemma Matrix_Inr:
  "0 \<le> r \<Longrightarrow> 0 \<le> c \<Longrightarrow>
   Matrix r c = Inr \<lparr>rows = r, cols = c, data = replicate (nat r) (replicate (nat c) 0)\<rparr>"
  by (simp add: Matrix_def)

lemma Matrix_props:
  assumes "Matrix r c = Inr m"
  shows "0 \<le> r" "0 \<le> c" "m = \<lparr>rows = r, cols = c, data = replicate (nat r) (replicate (nat c) 0)\<rparr>"
  using assms by (auto simp: Matrix_def split: if_splits)

lemma matrix_inv_zero:
  "0 \<le> r \<Longrightarrow> 0 \<le> c \<Longrightarrow>
   matrix_inv \<lparr>rows = r, cols = c, data = replicate (nat r) (replicate (nat c) 0)\<rparr>"
  by (simp add: matrix_inv_def)

lemma cell_at_zero:
  "0 \<le> i \<Longrightarrow> i < r \<Longrightarrow> 0 \<le> j \<Longrightarrow> j < c \<Longrightarrow>
   cell_at (replicate (nat r) (replicate (nat c) 0)) i j = 0"
  by (simp add: cell_at_def)

lemma data_eqI:
  assumes "matrix_inv m" "matrix_inv m'" "rows m = rows m'" "cols m = cols m'"
    and cells: "\<And>i j. 0 \<le> i \<Longrightarrow> i < rows m \<Longrightarrow> 0 \<le> j \<Longrightarrow> j < cols m \<Longrightarrow>
      cell_at (data m) i j = cell_at (data m') i j"
  shows "data m = data m'"
proof (rule nth_equalityI)
  show len: "length (data m) = length (data m')"
    using assms(1-3) by (simp add: matrix_inv_def)
  fix k
  assume k: "k < length (data m)"
  then have in1: "data m ! k \<in> set (data m)" and in2: "data m' ! k \<in> set (data m')"
    using len by simp_all
  show "data m ! k = data m' ! k"
  proof (rule nth_equalityI)
    show "length (data m ! k) = length (data m' ! k)"
      using in1 in2 assms(1,2,4) by (simp add: matrix_inv_def)
    fix l
    assume l: "l < length (data m ! k)"
    have "int k < rows m"
      using k assms(1) by (simp add: matrix_inv_def)
    moreover have "int l < cols m"
      using l in1 assms(1) by (simp add: matrix_inv_def)
    ultimately have "cell_at (data m) (int k) (int l) = cell_at (data m') (int k) (int l)"
      by (intro cells) simp_all
    then show "data m ! k ! l = data m' ! k ! l"
      by (simp add: cell_at_def)
  qed
qed

lemma matrix_eqI:
  fixes m m' :: matrix
  assumes "matrix_inv m" "matrix_inv m'" "rows m = rows m'" "cols m = cols m'"
    and "\<And>i j. 0 \<le> i \<Longrightarrow> i < rows m \<Longrightarrow> 0 \<le> j \<Longrightarrow> j < cols m \<Longrightarrow>
      cell_at (data m) i j = cell_at (data m') i j"
  shows "m = m'"
  using data_eqI [OF assms] assms(3,4) by simp

lemma start_frame_inv:
  assumes "0 \<le> rows A" "0 \<le> cols B"
  shows "frame_inv \<lparr>this_mat = A, other_mat = B,
    result_mat = \<lparr>rows = rows A, cols = cols B,
      data = replicate (nat (rows A)) (replicate (nat (cols B)) 0)\<rparr>\<rparr>"
  using assms by (simp add: frame_inv_def matrix_inv_zero)

lemma multiply_run_Inr:
  assumes "0 \<le> rows A" "0 \<le> cols B" "cols A = rows B"
  shows "multiply_run A B = Inr (row_loop \<lparr>this_mat = A, other_mat = B,
    result_mat = \<lparr>rows = rows A, cols = cols B,
      data = replicate (nat (rows A)) (replicate (nat (cols B)) 0)\<rparr>\<rparr> 0)"
  using assms by (simp add: multiply_run_def Matrix_Inr)

lemma multiply_result:
  assumes "0 \<le> rows A" "0 \<le> cols B" "cols A = rows B"
  shows "\<exists>C. multiply A B = Inr C \<and> rows C = rows A \<and> cols C = cols B \<and> matrix_inv C \<and>
    (\<forall>i j. 0 \<le> i \<and> i < rows A \<and> 0 \<le> j \<and> j < cols B \<longrightarrow>
       cell_at (data C) i j = dot A B i j)"
proof -
  let ?st = "\<lparr>this_mat = A, other_mat = B,
    result_mat = \<lparr>rows = rows A, cols = cols B,
      data = replicate (nat (rows A)) (replicate (nat (cols B)) 0)\<rparr>\<rparr>"
  let ?C = "result_mat (row_loop ?st 0)"
  have inv: "frame_inv ?st"
    using assms(1,2) by (rule start_frame_inv)
  have sf: "same_frame ?st (row_loop ?st 0)"
    by (rule same_frame_row_loop)
  then have inv': "frame_inv (row_loop ?st 0)"
    using inv by (rule frame_inv_same)
  have "multiply A B = Inr ?C"
    by (simp add: multiply_def multiply_run_Inr [OF assms])
  moreover have "rows ?C = rows A" "cols ?C = cols B"
    using sf by (simp_all add: same_frame_def)
  moreover have "matrix_inv ?C"
    using inv' by (simp add: frame_inv_def)
  moreover have "cell_at (data ?C) i j = dot A B i j"
    if "0 \<le> i" "i < rows A" "0 \<le> j" "j < cols B" for i j
    using row_loop_cell [OF inv, of 0 i j] that by (simp add: cell_at_zero)
  ultimately show ?thesis
    by blast
qed

lemma multiplyParallel_run_Inr:
  assumes "0 \<le> rows A" "0 \<le> cols B" "cols A = rows B" "rows A * cols B \<le> INT_MAX" "1 \<le> n"
  shows "multiplyParallel_run A B n = Inr (thread_loop \<lparr>this_mat = A, other_mat = B,
    result_mat = \<lparr>rows = rows A, cols = cols B,
      data = replicate (nat (rows A)) (replicate (nat (cols B)) 0)\<rparr>\<rparr>
    n ((rows A * cols B) div n) 0)"
proof -
  have t: "0 \<le> rows A * cols B"
    using assms(1,2) by simp
  then have "int_mul (rows A) (cols B) = rows A * cols B"
    using assms(4) by (simp add: int_mul_def wrap_int_id INT_MIN_def)
  moreover have "int_quot (rows A * cols B) n = (rows A * cols B) div n"
    using t assms(5) by (simp add: int_quot_nonneg)
  moreover have "rows A * cols B \<noteq> INT_MIN"
    using t by (simp add: INT_MIN_def)
  ultimately show ?thesis
    using assms by (simp add: multiplyParallel_run_def elements_per_thread_def Matrix_Inr)
qed

lemma multiplyParallel_result:
  assumes "0 \<le> rows A" "0 \<le> cols B" "cols A = rows B" "rows A * cols B \<le> INT_MAX" "1 \<le> n"
  shows "\<exists>C. multiplyParallel A B n = Inr C \<and> rows C = rows A \<and> cols C = cols B \<and>
    matrix_inv C \<and>
    (\<forall>i j. 0 \<le> i \<and> i < rows A \<and> 0 \<le> j \<and> j < cols B \<longrightarrow>
       cell_at (data C) i j = dot A B i j)"
proof -
  let ?st = "\<lparr>this_mat = A, other_mat = B,
    result_mat = \<lparr>rows = rows A, cols = cols B,
      data = replicate (nat (rows A)) (replicate (nat (cols B)) 0)\<rparr>\<rparr>"
  let ?e = "(rows A * cols B) div n"
  let ?C = "result_mat (thread_loop ?st n ?e 0)"
  have inv: "frame_inv ?st"
    using assms(1,2) by (rule start_frame_inv)
  have sf: "same_frame ?st (thread_loop ?st n ?e 0)"
    by (rule same_frame_thread_loop)
  then have inv': "frame_inv (thread_loop ?st n ?e 0)"
    using inv by (rule frame_inv_same)
  have "multiplyParallel A B n = Inr ?C"
    by (simp add: multiplyParallel_def multiplyParallel_run_Inr [OF assms])
  moreover have "rows ?C = rows A" "cols ?C = cols B"
    using sf by (simp_all add: same_frame_def)
  moreover have "matrix_inv ?C"
    using inv' by (simp add: frame_inv_def)
  moreover have "cell_at (data ?C) i j = dot A B i j"
    if "0 \<le> i" "i < rows A" "0 \<le> j" "j < cols B" for i j
  proof -
    have "0 \<le> i * cols B + j"
      using that assms(2) by simp
    then show ?thesis
      using thread_loop_cell [OF inv, of n ?e 0 i j] that assms(4,5)
      by (simp add: cell_at_zero)
  qed
  ultimately show ?thesis
    by blast
qed

lemma multiplyParallel_eq_multiply:
  assumes "0 \<le> rows A" "0 \<le> cols B" "cols A = rows B" "rows A * cols B \<le> INT_MAX" "1 \<le> n"
  shows "multiplyParallel A B n = multiply A B"
proof -
  from multiply_result [OF assms(1-3)] obtain C where
    C: "multiply A B = Inr C" "rows C = rows A" "cols C = cols B" "matrix_inv C"
      "\<And>i j. 0 \<le> i \<Longrightarrow> i < rows A \<Longrightarrow> 0 \<le> j \<Longrightarrow> j < cols B \<Longrightarrow> cell_at (data C) i j = dot A B i j"
    by blast
  from multiplyParallel_result [OF assms] obtain P where
    P: "multiplyParallel A B n = Inr P" "rows P = rows A" "cols P = cols B" "matrix_inv P"
      "\<And>i j. 0 \<le> i \<Longrightarrow> i < rows A \<Longrightarrow> 0 \<le> j \<Longrightarrow> j < cols B \<Longrightarrow> cell_at (data P) i j = dot A B i j"
    by blast
  have "P = C"
    using P(4) C(4) by (rule matrix_eqI) (simp_all add: P C)
  with P(1) C(1) show ?thesis
    by simp
qed

subsection \<open>The fill\<close>


lemma matrix_inv_same_shape: "same_shape m m' \<Longrightarrow> matrix_inv m \<Longrightarrow> matrix_inv m'"
  by (simp add: same_shape_def matrix_inv_shape)

lemma fill_cols_shape: "same_shape m (fst (fill_cols dis gen m i j g))"
proof (induction dis gen m i j g rule: fill_cols.induct)
  case (1 dis gen m i j g)
  show ?case
  proof (cases "j < cols m")
    case True
    with 1 show ?thesis
      by (subst fill_cols.simps) (simp add: same_shape_def shape_cell_upd)
  next
    case False
    then show ?thesis
      by (subst fill_cols.simps) (simp add: same_shape_def)
  qed
qed

lemma fill_cols_count: "snd (fill_cols dis gen m i j g) = g + nat (cols m - j)"
proof (induction dis gen m i j g rule: fill_cols.induct)
  case (1 dis gen m i j g)
  show ?case
  proof (cases "j < cols m")
    case True
    with 1 show ?thesis
      by (subst fill_cols.simps) (simp add: nat_diff_distrib)
  next
    case False
    then show ?thesis
      by (subst fill_cols.simps) simp
  qed
qed

lemma fill_cols_cell:
  assumes "matrix_inv m" "0 \<le> i" "i < rows m" "0 \<le> j" "0 \<le> i'" "0 \<le> j'"
  shows "cell_at (data (fst (fill_cols dis gen m i j g))) i' j' =
    (if i' = i \<and> j \<le> j' \<and> j' < cols m then word_of_int (dis (gen (g + nat (j' - j))))
     else cell_at (data m) i' j')"
  using assms
proof (induction dis gen m i j g rule: fill_cols.induct)
  case (1 dis gen m i j g)
  show ?case
  proof (cases "j < cols m")
    case True
    let ?m = "m\<lparr>data := cell_upd (data m) i j (word_of_int (dis (gen g)))\<rparr>"
    have sh: "same_shape m ?m"
      by (simp add: same_shape_def shape_cell_upd)
    then have inv: "matrix_inv ?m"
      using "1.prems"(1) by (rule matrix_inv_same_shape)
    have step: "fill_cols dis gen m i j g = fill_cols dis gen ?m i (j + 1) (Suc g)"
      using True by (subst fill_cols.simps) simp
    have ih: "cell_at (data (fst (fill_cols dis gen ?m i (j + 1) (Suc g)))) i' j' =
      (if i' = i \<and> j + 1 \<le> j' \<and> j' < cols m then word_of_int (dis (gen (Suc g + nat (j' - (j + 1)))))
       else cell_at (data ?m) i' j')"
      using "1.IH" [OF True inv] "1.prems" by simp
    have bi: "nat i < length (data m)"
      using "1.prems" by (simp add: matrix_inv_def)
    then have "data m ! nat i \<in> set (data m)"
      by simp
    then have bj: "nat j < length (data m ! nat i)"
      using "1.prems" True by (simp add: matrix_inv_def)
    have one: "cell_at (data ?m) i' j' =
      (if i' = i \<and> j' = j then word_of_int (dis (gen g)) else cell_at (data m) i' j')"
      using "1.prems" bi bj by (simp add: cell_at_cell_upd)
    have idx: "word_of_int (dis (gen (Suc (g + nat (j' - (j + 1)))))) = word_of_int (dis (gen (g + nat (j' - j))))" if "j + 1 \<le> j'"
    proof -
      from that have "Suc (g + nat (j' - (j + 1))) = g + nat (j' - j)"
        by linarith
      then show ?thesis
        by (simp only:)
    qed
    show ?thesis
      unfolding step ih one using True idx by auto
  next
    case False
    then show ?thesis
      by (subst fill_cols.simps) auto
  qed
qed

lemma fill_rows_shape: "same_shape m (fst (fill_rows dis gen m i g))"
proof (induction dis gen m i g rule: fill_rows.induct)
  case (1 dis gen m i g)
  show ?case
  proof (cases "i < rows m")
    case True
    obtain m' g' where p: "fill_cols dis gen m i 0 g = (m', g')"
      by (cases "fill_cols dis gen m i 0 g")
    have a: "same_shape m m'"
      using fill_cols_shape [of m dis gen i 0 g] p by simp
    have "same_shape m' (fst (fill_rows dis gen m' (i + 1) g'))"
      using "1.IH" [OF True p [symmetric]] .
    with a have "same_shape m (fst (fill_rows dis gen m' (i + 1) g'))"
      by (simp add: same_shape_def)
    then show ?thesis
      using True p by (subst fill_rows.simps) simp
  next
    case False
    then show ?thesis
      by (subst fill_rows.simps) (simp add: same_shape_def)
  qed
qed

lemma fill_rows_cell:
  assumes "matrix_inv m" "0 \<le> i" "0 \<le> i'" "0 \<le> j'"
  shows "cell_at (data (fst (fill_rows dis gen m i g))) i' j' =
    (if i \<le> i' \<and> i' < rows m \<and> j' < cols m
     then word_of_int (dis (gen (g + nat ((i' - i) * cols m + j'))))
     else cell_at (data m) i' j')"
  using assms
proof (induction dis gen m i g rule: fill_rows.induct)
  case (1 dis gen m i g)
  show ?case
  proof (cases "i < rows m")
    case True
    obtain m' g' where p: "fill_cols dis gen m i 0 g = (m', g')"
      by (cases "fill_cols dis gen m i 0 g")
    have sh: "same_shape m m'"
      using fill_cols_shape [of m dis gen i 0 g] p by simp
    then have inv: "matrix_inv m'"
      using "1.prems"(1) by (rule matrix_inv_same_shape)
    from sh have dims: "rows m' = rows m" "cols m' = cols m"
      by (simp_all add: same_shape_def)
    have c0: "0 \<le> cols m"
      using "1.prems"(1) by (simp add: matrix_inv_def)
    have g': "g' = g + nat (cols m)"
      using fill_cols_count [of dis gen m i 0 g] p by simp
    have step: "fill_rows dis gen m i g = fill_rows dis gen m' (i + 1) g'"
      using True p by (subst fill_rows.simps) simp
    have ih: "cell_at (data (fst (fill_rows dis gen m' (i + 1) g'))) i' j' =
      (if i + 1 \<le> i' \<and> i' < rows m \<and> j' < cols m
       then word_of_int (dis (gen (g' + nat ((i' - (i + 1)) * cols m + j'))))
       else cell_at (data m') i' j')"
      using "1.IH" [OF True p [symmetric] inv] "1.prems" by (simp add: dims)
    have one: "cell_at (data m') i' j' =
      (if i' = i \<and> 0 \<le> j' \<and> j' < cols m then word_of_int (dis (gen (g + nat (j' - 0))))
       else cell_at (data m) i' j')"
      using fill_cols_cell [OF "1.prems"(1,2) True _ "1.prems"(3,4), of 0 dis gen g] p by simp
    have idx: "word_of_int (dis (gen (g' + nat ((i' - (i + 1)) * cols m + j')))) = word_of_int (dis (gen (g + nat ((i' - i) * cols m + j'))))"
      if "i + 1 \<le> i'"
    proof -
      have "0 \<le> (i' - (i + 1)) * cols m + j'"
        using that c0 "1.prems"(4) by simp
      moreover have "(i' - i) * cols m = (i' - (i + 1)) * cols m + cols m"
        by (simp add: algebra_simps)
      ultimately have "g' + nat ((i' - (i + 1)) * cols m + j') = g + nat ((i' - i) * cols m + j')"
        unfolding g' using c0 by (simp add: nat_add_distrib)
      then show ?thesis
        by (simp only:)
    qed
    show ?thesis
      unfolding step ih one using True "1.prems" idx by auto
  next
    case False
    then show ?thesis
      by (subst fill_rows.simps) auto
  qed
qed

lemma fill_increment_value_shape: "same_shape m (fill_increment_value gen m)"
  by (simp add: fill_increment_value_def fill_rows_shape)

lemma fill_increment_value_cell:
  assumes "matrix_inv m" "0 \<le> i" "i < rows m" "0 \<le> j" "j < cols m"
  shows "cell_at (data (fill_increment_value gen m)) i j =
    word_of_int (uniform_int_distribution 1 10 (gen (nat (i * cols m + j))))"
  using fill_rows_cell [OF assms(1) _ assms(2,4), of 0 "uniform_int_distribution 1 10" gen 0] assms
  by (simp add: fill_increment_value_def)

lemma uniform_int_distribution_range:
  assumes "a \<le> b"
  shows "a \<le> uniform_int_distribution a b raw" "uniform_int_distribution a b raw \<le> b"
proof -
  have "0 < b - a + 1"
    using assms by simp
  then have "0 \<le> int raw mod (b - a + 1)" "int raw mod (b - a + 1) < b - a + 1"
    by (rule pos_mod_sign, rule pos_mod_bound)
  then show "a \<le> uniform_int_distribution a b raw" "uniform_int_distribution a b raw \<le> b"
    by (simp_all add: uniform_int_distribution_def)
qed

subsection \<open>No thread to start\<close>

lemma thread_loop_none: "num_threads \<le> 0 \<Longrightarrow> thread_loop st num_threads ept 0 = st"
  by (subst thread_loop.simps) simp

subsection \<open>Cells as signed integers\<close>
lemma sint_of_int_wrap: "sint (word_of_int x :: cell) = wrap_int x"
  by (simp add: sint_sbintrunc' signed_take_bit_eq_take_bit_shift take_bit_eq_mod wrap_int_def)

lemma sint_dot:
  "sint (dot A B i j) =
     wrap_int (\<Sum>k = 0..<cols A. sint (cell_at (data A) i k) * sint (cell_at (data B) k j))"
proof -
  have "dot A B i j =
    word_of_int (\<Sum>k = 0..<cols A. sint (cell_at (data A) i k) * sint (cell_at (data B) k j))"
    by (simp add: dot_def)
  then show ?thesis
    by (simp only: sint_of_int_wrap)
qed

subsection \<open>The frame a multiplication leaves\<close>

lemma multiply_run_cases:
  assumes "multiply_run A B = Inr st"
  shows "0 \<le> rows A" "0 \<le> cols B" "cols A = rows B"
    "st = row_loop \<lparr>this_mat = A, other_mat = B,
      result_mat = \<lparr>rows = rows A, cols = cols B,
        data = replicate (nat (rows A)) (replicate (nat (cols B)) 0)\<rparr>\<rparr> 0"
  using assms by (auto simp: multiply_run_def Matrix_def split: if_splits)

lemma multiplyParallel_run_cases:
  assumes "multiplyParallel_run A B n = Inr st"
  shows "0 \<le> rows A" "0 \<le> cols B" "cols A = rows B"
    "st = thread_loop \<lparr>this_mat = A, other_mat = B,
      result_mat = \<lparr>rows = rows A, cols = cols B,
        data = replicate (nat (rows A)) (replicate (nat (cols B)) 0)\<rparr>\<rparr>
      n (elements_per_thread A B n) 0"
  using assms by (auto simp: multiplyParallel_run_def Matrix_def Let_def split: if_splits)

lemma multiply_run_frame:
  assumes "multiply_run A B = Inr st"
  shows "this_mat st = A" "other_mat st = B" "frame_inv st"
proof -
  let ?st = "\<lparr>this_mat = A, other_mat = B,
    result_mat = \<lparr>rows = rows A, cols = cols B,
      data = replicate (nat (rows A)) (replicate (nat (cols B)) 0)\<rparr>\<rparr>"
  note c = multiply_run_cases [OF assms]
  have sf: "same_frame ?st st"
    unfolding c(4) by (rule same_frame_row_loop)
  then show "this_mat st = A" "other_mat st = B"
    by (simp_all add: same_frame_def)
  show "frame_inv st"
    using sf start_frame_inv [OF c(1,2)] by (rule frame_inv_same)
qed

lemma multiplyParallel_run_frame:
  assumes "multiplyParallel_run A B n = Inr st"
  shows "this_mat st = A" "other_mat st = B" "frame_inv st"
proof -
  let ?st = "\<lparr>this_mat = A, other_mat = B,
    result_mat = \<lparr>rows = rows A, cols = cols B,
      data = replicate (nat (rows A)) (replicate (nat (cols B)) 0)\<rparr>\<rparr>"
  note c = multiplyParallel_run_cases [OF assms]
  have sf: "same_frame ?st st"
    unfolding c(4) by (rule same_frame_thread_loop)
  then show "this_mat st = A" "other_mat st = B"
    by (simp_all add: same_frame_def)
  show "frame_inv st"
    using sf start_frame_inv [OF c(1,2)] by (rule frame_inv_same)
qed

subsection \<open>The invariant along the public operations\<close>

lemma at_assign_shape: "at_assign m row col v = Inr m' \<Longrightarrow> same_shape m m'"
  by (auto simp: at_assign_def same_shape_def shape_cell_upd split: if_splits)

lemma Matrix_all_zero:
  assumes "Matrix r c = Inr m"
  shows "\<forall>row \<in> set (data m). \<forall>x \<in> set row. x = 0"
  using Matrix_props(3) [OF assms] by auto

lemma reachable_inv: "reachable m \<Longrightarrow> matrix_inv m"
proof (induction rule: reachable.induct)
  case (construct r c m)
  then show ?case
    using Matrix_props [OF construct] matrix_inv_zero by simp
next
  case (filled m gen)
  from fill_increment_value_shape filled(2) show ?case
    by (rule matrix_inv_same_shape)
next
  case (assigned m row col v m')
  from at_assign_shape [OF assigned(2)] assigned(3) show ?case
    by (rule matrix_inv_same_shape)
next
  case (product A B st m)
  from multiply_run_frame [OF product(3)] product(4,5,6) show ?case
    by (auto simp: frame_inv_def)
next
  case (parallel_product A B num_threads st m)
  from multiplyParallel_run_frame [OF parallel_product(3)] parallel_product(4,5,6) show ?case
    by (auto simp: frame_inv_def)
qed

subsection \<open>The ranges of the threads\<close>

text \<open>
  As long as the number of output cells fits an \<^verbatim>\<open>int\<close>, the ranges of the threads
  \<open>0, \<dots>, n - 1\<close> follow one another from \<open>0\<close> to the number of cells, each of
  \<open>total div n\<close> indices but the last, which runs to the end; every index has one owner.
\<close>

lemma range_owner:
  fixes x e n t :: int
  assumes "1 \<le> n" "0 \<le> e" "n * e \<le> t" "0 \<le> x" "x < t"
  shows "\<exists>!i. 0 \<le> i \<and> i < n \<and> i * e \<le> x \<and> x < (if i = n - 1 then t else (i + 1) * e)"
proof (cases "x < (n - 1) * e")
  case True
  then have e: "0 < e"
    using assms(1,2,4) by (cases "e = 0") simp_all
  let ?i = "x div e"
  have q: "?i * e + x mod e = x"
    by simp
  have m: "0 \<le> x mod e" "x mod e < e"
    using e by simp_all
  have lo: "?i * e \<le> x"
    using q m(1) by linarith
  have "(?i + 1) * e = ?i * e + e"
    by (simp add: algebra_simps)
  with q m(2) have hi: "x < (?i + 1) * e"
    by linarith
  have i0: "0 \<le> ?i"
    using assms(4) e by (simp add: pos_imp_zdiv_nonneg_iff)
  have i1: "?i < n - 1"
  proof (rule ccontr)
    assume "\<not> ?i < n - 1"
    then have "(n - 1) * e \<le> ?i * e"
      using e by (simp add: mult_right_mono)
    with lo True show False
      by linarith
  qed
  show ?thesis
  proof (rule ex1I [of _ ?i])
    show "0 \<le> ?i \<and> ?i < n \<and> ?i * e \<le> x \<and> x < (if ?i = n - 1 then t else (?i + 1) * e)"
      using i0 i1 lo hi by simp
  next
    fix i
    assume a: "0 \<le> i \<and> i < n \<and> i * e \<le> x \<and> x < (if i = n - 1 then t else (i + 1) * e)"
    have ne: "i \<noteq> n - 1"
      using a True by auto
    with a have b: "i * e \<le> x" "x < (i + 1) * e"
      by simp_all
    have "x = e * i + (x - i * e)"
      by (simp add: algebra_simps)
    moreover have "0 \<le> x - i * e" "x - i * e < e"
      using b by (simp_all add: algebra_simps)
    ultimately have "x div e = i"
      by (rule int_div_pos_eq)
    then show "i = ?i"
      by simp
  qed
next
  case False
  show ?thesis
  proof (rule ex1I [of _ "n - 1"])
    show "0 \<le> n - 1 \<and> n - 1 < n \<and> (n - 1) * e \<le> x \<and>
      x < (if n - 1 = n - 1 then t else (n - 1 + 1) * e)"
      using assms False by simp
  next
    fix i
    assume a: "0 \<le> i \<and> i < n \<and> i * e \<le> x \<and> x < (if i = n - 1 then t else (i + 1) * e)"
    show "i = n - 1"
    proof (rule ccontr)
      assume ne: "i \<noteq> n - 1"
      with a have "x < (i + 1) * e" and "i + 1 \<le> n - 1"
        by simp_all
      moreover from this(2) have "(i + 1) * e \<le> (n - 1) * e"
        using assms(2) by (rule mult_right_mono)
      ultimately show False
        using False by linarith
    qed
  qed
qed

lemma partition_no_overflow:
  fixes st :: frame and n :: int
  defines "t \<equiv> rows (this_mat st) * cols (other_mat st)"
  defines "ept \<equiv> int_quot (int_mul (rows (this_mat st)) (cols (other_mat st))) n"
  assumes "0 \<le> rows (this_mat st)" "0 \<le> cols (other_mat st)" "t \<le> INT_MAX" "1 \<le> n"
  shows "ept = t div n"
    and "thread_start ept 0 = 0"
    and "\<forall>i. 0 \<le> i \<and> i < n \<longrightarrow>
      thread_start ept i = i * (t div n) \<and>
      thread_end st n ept i = (if i = n - 1 then t else (i + 1) * (t div n)) \<and>
      0 \<le> thread_start ept i \<and> thread_start ept i \<le> thread_end st n ept i \<and>
      thread_end st n ept i \<le> t"
    and "\<forall>i. 0 \<le> i \<and> i < n - 1 \<longrightarrow>
      thread_end st n ept i = thread_start ept (i + 1) \<and>
      thread_end st n ept i - thread_start ept i = t div n"
    and "thread_end st n ept (n - 1) = t \<and>
      thread_end st n ept (n - 1) - thread_start ept (n - 1) = t - (n - 1) * (t div n)"
    and "\<forall>x. 0 \<le> x \<and> x < t \<longrightarrow>
      (\<exists>!i. 0 \<le> i \<and> i < n \<and> thread_start ept i \<le> x \<and> x < thread_end st n ept i)"
proof -
  have t0: "0 \<le> t"
    using assms(3,4) by (simp add: t_def)
  have tot: "int_mul (rows (this_mat st)) (cols (other_mat st)) = t"
    using t0 assms(5) by (simp add: int_mul_def t_def wrap_int_id INT_MIN_def)
  show e: "ept = t div n"
    using t0 assms(6) by (simp add: ept_def tot int_quot_nonneg)
  have e0: "0 \<le> ept"
    unfolding e using t0 assms(6) by (simp add: pos_imp_zdiv_nonneg_iff)
  note nw = index_range_no_wrap [OF t0 assms(5,6) e]
  have ne: "n * ept \<le> t"
    using nw(2) [of n] assms(6) by simp
  have s: "thread_start ept i = i * ept" if "0 \<le> i" "i \<le> n" for i
    using nw(3) [OF that] by (simp add: thread_start_def)
  have en: "thread_end st n ept i = (if i = n - 1 then t else (i + 1) * ept)"
    if "0 \<le> i" "i < n" for i
    using nw(3) [of "i + 1"] that by (simp add: thread_end_def tot)
  show "thread_start ept 0 = 0"
    using s [of 0] assms(6) by simp
  show b: "\<forall>i. 0 \<le> i \<and> i < n \<longrightarrow>
      thread_start ept i = i * (t div n) \<and>
      thread_end st n ept i = (if i = n - 1 then t else (i + 1) * (t div n)) \<and>
      0 \<le> thread_start ept i \<and> thread_start ept i \<le> thread_end st n ept i \<and>
      thread_end st n ept i \<le> t"
  proof (intro allI impI)
    fix i
    assume i: "0 \<le> i \<and> i < n"
    then have si: "thread_start ept i = i * ept"
      and ei: "thread_end st n ept i = (if i = n - 1 then t else (i + 1) * ept)"
      by (simp_all add: s en)
    have "i * ept \<le> (i + 1) * ept"
      using e0 by (simp add: algebra_simps)
    moreover have "(i + 1) * ept \<le> t"
      using nw(2) [of "i + 1"] i by simp
    moreover have "0 \<le> i * ept" "i * ept \<le> t"
      using nw(1,2) [of i] i by simp_all
    ultimately show "thread_start ept i = i * (t div n) \<and>
      thread_end st n ept i = (if i = n - 1 then t else (i + 1) * (t div n)) \<and>
      0 \<le> thread_start ept i \<and> thread_start ept i \<le> thread_end st n ept i \<and>
      thread_end st n ept i \<le> t"
      unfolding si ei e [symmetric] by auto
  qed
  show "\<forall>i. 0 \<le> i \<and> i < n - 1 \<longrightarrow>
      thread_end st n ept i = thread_start ept (i + 1) \<and>
      thread_end st n ept i - thread_start ept i = t div n"
    using s en e by (simp add: algebra_simps)
  show "thread_end st n ept (n - 1) = t \<and>
      thread_end st n ept (n - 1) - thread_start ept (n - 1) = t - (n - 1) * (t div n)"
    using s [of "n - 1"] en [of "n - 1"] assms(6) e by simp
  show "\<forall>x. 0 \<le> x \<and> x < t \<longrightarrow>
      (\<exists>!i. 0 \<le> i \<and> i < n \<and> thread_start ept i \<le> x \<and> x < thread_end st n ept i)"
  proof (intro allI impI)
    fix x
    assume x: "0 \<le> x \<and> x < t"
    have "\<exists>!i. 0 \<le> i \<and> i < n \<and> i * ept \<le> x \<and> x < (if i = n - 1 then t else (i + 1) * ept)"
      using assms(6) e0 ne x by (intro range_owner) simp_all
    moreover have "(0 \<le> i \<and> i < n \<and> thread_start ept i \<le> x \<and> x < thread_end st n ept i)
      \<longleftrightarrow> (0 \<le> i \<and> i < n \<and> i * ept \<le> x \<and> x < (if i = n - 1 then t else (i + 1) * ept))"
      for i
      using s [of i] en [of i] by auto
    ultimately show "\<exists>!i. 0 \<le> i \<and> i < n \<and> thread_start ept i \<le> x \<and> x < thread_end st n ept i"
      by simp
  qed
qed

subsection \<open>A product of more cells than an int can count\<close>

text \<open>
  A column of 46341 ones times a row of 46341 ones has \<open>46341 * 46341 = 2147488281\<close> cells,
  more than \<^verbatim>\<open>INT_MAX\<close>. Both operands are small, and both satisfy the class invariant.
\<close>

lemma overflow_operands:
  "matrix_inv (column_of_ones 46341) \<and> matrix_inv (row_of_ones 46341) \<and>
   cols (column_of_ones 46341) = rows (row_of_ones 46341) \<and>
   INT_MAX < rows (column_of_ones 46341) * cols (row_of_ones 46341)"
  by (simp add: matrix_inv_def column_of_ones_def row_of_ones_def INT_MAX_def)

lemma overflow_total: "int_mul 46341 46341 = - 2147479015"
  by (simp add: int_mul_def wrap_int_def)

lemma overflow_ept:
  "elements_per_thread (column_of_ones 46341) (row_of_ones 46341) 2 = - 1073739507"
  by (simp add: elements_per_thread_def column_of_ones_def row_of_ones_def overflow_total
      int_quot_def)

lemma index_loop_empty: "e \<le> s \<Longrightarrow> index_loop st s e = st"
  by (subst index_loop.simps) simp

subsection \<open>The order of the threads\<close>

text \<open>
  A thread adds into the cells of its own range only, and the ranges are disjoint: as long
  as the number of output cells fits an \<^verbatim>\<open>int\<close>, running the thread bodies in any order
  leaves the frame that the order of their start leaves.
\<close>

lemma same_frame_run_threads: "same_frame st (run_threads st n ept order)"
proof (induction order arbitrary: st)
  case Nil
  show ?case by (simp add: same_frame_refl)
next
  case (Cons i order)
  from same_frame_thread_body Cons [of "thread_body st n ept i"] show ?case
    unfolding run_threads.simps by (rule same_frame_trans)
qed

lemma thread_body_cell:
  assumes "frame_inv st" "rows (this_mat st) * cols (other_mat st) \<le> INT_MAX" "1 \<le> n"
    and "ept = (rows (this_mat st) * cols (other_mat st)) div n"
    and "0 \<le> i" "i < n" "0 \<le> i'" "0 \<le> j'" "j' < cols (other_mat st)"
  shows "cell_at (data (result_mat (thread_body st n ept i))) i' j' =
    (if thread_start ept i \<le> i' * cols (other_mat st) + j' \<and>
        i' * cols (other_mat st) + j' < thread_end st n ept i
     then cell_at (data (result_mat st)) i' j' + dot (this_mat st) (other_mat st) i' j'
     else cell_at (data (result_mat st)) i' j')"
proof -
  let ?t = "rows (this_mat st) * cols (other_mat st)"
  have t0: "0 \<le> ?t"
    using frame_inv_dims [OF assms(1)] by simp
  have tot: "int_mul (rows (this_mat st)) (cols (other_mat st)) = ?t"
    using t0 assms(2) by (simp add: int_mul_def wrap_int_id INT_MIN_def)
  have s: "0 \<le> thread_start ept i"
    using index_range_no_wrap [OF t0 assms(2,3,4,5)] assms(6) by (simp add: thread_start_def)
  have e: "thread_end st n ept i \<le> ?t"
    using index_range_no_wrap [OF t0 assms(2,3,4), of "i + 1"] assms(5,6) tot
    by (simp add: thread_end_def)
  show ?thesis
    unfolding thread_body_def using assms(1) s e assms(7,8,9) by (rule index_loop_cell)
qed

lemma run_threads_cell:
  assumes "frame_inv st" "rows (this_mat st) * cols (other_mat st) \<le> INT_MAX" "1 \<le> n"
    and "ept = (rows (this_mat st) * cols (other_mat st)) div n"
    and "distinct order" "\<forall>i \<in> set order. 0 \<le> i \<and> i < n"
    and "0 \<le> i'" "i' < rows (this_mat st)" "0 \<le> j'" "j' < cols (other_mat st)"
  shows "cell_at (data (result_mat (run_threads st n ept order))) i' j' =
    (if \<exists>i \<in> set order. thread_start ept i \<le> i' * cols (other_mat st) + j' \<and>
          i' * cols (other_mat st) + j' < thread_end st n ept i
     then cell_at (data (result_mat st)) i' j' + dot (this_mat st) (other_mat st) i' j'
     else cell_at (data (result_mat st)) i' j')"
  using assms
proof (induction order arbitrary: st)
  case Nil
  show ?case by simp
next
  case (Cons i order)
  let ?c = "cols (other_mat st)"
  let ?t = "rows (this_mat st) * ?c"
  let ?x = "i' * ?c + j'"
  let ?st = "thread_body st n ept i"
  have sf: "same_frame st ?st"
    by (rule same_frame_thread_body)
  then have inv: "frame_inv ?st"
    using Cons.prems(1) by (rule frame_inv_same)
  from sf have eqs: "this_mat ?st = this_mat st" "other_mat ?st = other_mat st"
    by (simp_all add: same_frame_def)
  have te: "thread_end ?st n ept k = thread_end st n ept k" for k
    by (simp add: thread_end_def eqs)
  have d: "0 \<le> rows (this_mat st)" "0 \<le> ?c"
    using frame_inv_dims [OF Cons.prems(1)] by simp_all
  have x: "0 \<le> ?x" "?x < ?t"
    using Cons.prems(7-10) d by (simp_all add: flat_index_less)
  have i: "0 \<le> i" "i < n" "i \<notin> set order" "distinct order"
    "\<forall>k \<in> set order. 0 \<le> k \<and> k < n"
    using Cons.prems(5,6) by simp_all
  have ih: "cell_at (data (result_mat (run_threads ?st n ept order))) i' j' =
    (if \<exists>k \<in> set order. thread_start ept k \<le> ?x \<and> ?x < thread_end st n ept k
     then cell_at (data (result_mat ?st)) i' j' + dot (this_mat st) (other_mat st) i' j'
     else cell_at (data (result_mat ?st)) i' j')"
    using Cons.IH [OF inv, unfolded eqs te, OF Cons.prems(2,3,4) i(4,5) Cons.prems(7-10)] .
  have one: "cell_at (data (result_mat ?st)) i' j' =
    (if thread_start ept i \<le> ?x \<and> ?x < thread_end st n ept i
     then cell_at (data (result_mat st)) i' j' + dot (this_mat st) (other_mat st) i' j'
     else cell_at (data (result_mat st)) i' j')"
    using Cons.prems(1-4) i(1,2) Cons.prems(7,9,10) by (rule thread_body_cell)
  have ept: "int_quot (int_mul (rows (this_mat st)) ?c) n = ept"
    using partition_no_overflow(1) [OF d Cons.prems(2,3)] Cons.prems(4) by simp
  have owner: "\<exists>!k. 0 \<le> k \<and> k < n \<and> thread_start ept k \<le> ?x \<and> ?x < thread_end st n ept k"
    using partition_no_overflow(6) [OF d Cons.prems(2,3), unfolded ept] x by blast
  have excl: "\<not> (thread_start ept k \<le> ?x \<and> ?x < thread_end st n ept k)"
    if "k \<in> set order" "thread_start ept i \<le> ?x \<and> ?x < thread_end st n ept i" for k
  proof
    assume "thread_start ept k \<le> ?x \<and> ?x < thread_end st n ept k"
    with that i owner have "k = i"
      by blast
    with that(1) i(3) show False
      by simp
  qed
  show ?case
    unfolding run_threads.simps ih one using excl by auto
qed

lemma run_threads_any_order:
  assumes "frame_inv st" "rows (this_mat st) * cols (other_mat st) \<le> INT_MAX" "1 \<le> n"
    and "ept = (rows (this_mat st) * cols (other_mat st)) div n"
    and "distinct order" "set order = {0..<n}"
  shows "run_threads st n ept order = thread_loop st n ept 0"
proof -
  let ?p = "run_threads st n ept order"
  let ?q = "thread_loop st n ept 0"
  let ?c = "cols (other_mat st)"
  have sp: "same_frame st ?p" and sq: "same_frame st ?q"
    by (rule same_frame_run_threads, rule same_frame_thread_loop)
  have ip: "frame_inv ?p" and iq: "frame_inv ?q"
    using sp sq assms(1) by (blast intro: frame_inv_same)+
  have d: "0 \<le> rows (this_mat st)" "0 \<le> ?c"
    using frame_inv_dims [OF assms(1)] by simp_all
  have dims: "rows (result_mat st) = rows (this_mat st)" "cols (result_mat st) = ?c"
    using assms(1) by (simp_all add: frame_inv_def)
  have ept: "int_quot (int_mul (rows (this_mat st)) ?c) n = ept"
    using partition_no_overflow(1) [OF d assms(2,3)] assms(4) by simp
  have bnd: "\<forall>i \<in> set order. 0 \<le> i \<and> i < n"
    using assms(6) by simp
  have cells: "cell_at (data (result_mat ?p)) i' j' = cell_at (data (result_mat ?q)) i' j'"
    if "0 \<le> i'" "i' < rows (result_mat ?p)" "0 \<le> j'" "j' < cols (result_mat ?p)" for i' j'
  proof -
    have r: "i' < rows (this_mat st)" "j' < ?c"
      using that sp dims by (simp_all add: same_frame_def)
    have x: "0 \<le> i' * ?c + j'" "i' * ?c + j' < rows (this_mat st) * ?c"
      using that(1,3) r d by (simp_all add: flat_index_less)
    obtain k where k: "0 \<le> k" "k < n" "thread_start ept k \<le> i' * ?c + j'"
      "i' * ?c + j' < thread_end st n ept k"
      using partition_no_overflow(6) [OF d assms(2,3), unfolded ept] x by blast
    then have "\<exists>i \<in> set order. thread_start ept i \<le> i' * ?c + j' \<and>
      i' * ?c + j' < thread_end st n ept i"
      using assms(6) by auto
    then have "cell_at (data (result_mat ?p)) i' j' =
      cell_at (data (result_mat st)) i' j' + dot (this_mat st) (other_mat st) i' j'"
      using run_threads_cell [OF assms(1-5) bnd that(1) r(1) that(3) r(2)] by simp
    moreover have "cell_at (data (result_mat ?q)) i' j' =
      cell_at (data (result_mat st)) i' j' + dot (this_mat st) (other_mat st) i' j'"
      using thread_loop_cell [OF assms(1-4) _ that(1) r(1) that(3) r(2), of 0] assms(3) x(1)
      by simp
    ultimately show ?thesis
      by simp
  qed
  have "result_mat ?p = result_mat ?q"
  proof (rule matrix_eqI)
    show "matrix_inv (result_mat ?p)" "matrix_inv (result_mat ?q)"
      using ip iq by (simp_all add: frame_inv_def)
    show "rows (result_mat ?p) = rows (result_mat ?q)" "cols (result_mat ?p) = cols (result_mat ?q)"
      using sp sq by (simp_all add: same_frame_def)
  qed (rule cells)
  moreover have "this_mat ?p = this_mat ?q" "other_mat ?p = other_mat ?q"
    using sp sq by (simp_all add: same_frame_def)
  ultimately show ?thesis
    by simp
qed

subsection \<open>The concrete scenario\<close>

text \<open>
  The loops run on \<open>[[1, 2], [3, 4]]\<close> and \<open>[[5, 6], [7, 8]]\<close>, with one, two, four and seven
  threads; and a fill from the raw values \<open>4, 5, 6, 7\<close>, which stores \<open>5, 6, 7, 8\<close>.
\<close>

lemmas loop_unfold = row_loop.simps col_loop.simps inner_loop.simps thread_loop.simps
  index_loop.simps

lemma scenario_sequential:
  "multiply scenario_A scenario_B = Inr \<lparr>rows = 2, cols = 2, data = [[19, 22], [43, 50]]\<rparr>"
  by (simp add: multiply_def multiply_run_def Matrix_def scenario_A_def scenario_B_def
      loop_unfold mac_def cell_at_def cell_upd_def numeral_2_eq_2)

lemma scenario_parallel:
  "multiplyParallel scenario_A scenario_B 1 = Inr \<lparr>rows = 2, cols = 2, data = [[19, 22], [43, 50]]\<rparr>"
  "multiplyParallel scenario_A scenario_B 2 = Inr \<lparr>rows = 2, cols = 2, data = [[19, 22], [43, 50]]\<rparr>"
  "multiplyParallel scenario_A scenario_B 4 = Inr \<lparr>rows = 2, cols = 2, data = [[19, 22], [43, 50]]\<rparr>"
  "multiplyParallel scenario_A scenario_B 7 = Inr \<lparr>rows = 2, cols = 2, data = [[19, 22], [43, 50]]\<rparr>"
  by (simp_all add: multiplyParallel_def multiplyParallel_run_def Matrix_def scenario_A_def
      scenario_B_def elements_per_thread_def thread_body_def thread_start_def thread_end_def
      int_mul_def wrap_int_def int_quot_def int_rem_def INT_MIN_def
      loop_unfold mac_def cell_at_def cell_upd_def numeral_2_eq_2)

lemma scenario_fill:
  "fill_increment_value (\<lambda>g. g + 4) scenario_A = scenario_B"
  by (simp add: fill_increment_value_def fill_rows.simps fill_cols.simps scenario_A_def
      scenario_B_def cell_upd_def uniform_int_distribution_def numeral_2_eq_2)

subsection \<open>Indexing inside the threads\<close>

text \<open>
  The loops of the model read and write the storage with total list operations. In the
  sequential loops the indices are bounded by the dimensions. In a thread they come from a
  division, and the product of the dimensions may have wrapped; still, for any dimensions
  and any positive thread count, a range is empty or lies inside the index space, so that
  \<^verbatim>\<open>index / other.cols\<close> never divides by zero and \<open>(row, col)\<close> is a cell of the result.
\<close>

lemma wrap_int_range: "INT_MIN \<le> wrap_int x" "wrap_int x \<le> INT_MAX"
  by (simp_all add: wrap_int_def INT_MIN_def INT_MAX_def)

lemma wrap_int_le: "0 \<le> x \<Longrightarrow> wrap_int x \<le> x"
proof -
  assume "0 \<le> x"
  then have "(x + 2147483648) mod 4294967296 \<le> x + 2147483648"
    by (intro zmod_le_nonneg_dividend) simp
  then show ?thesis
    by (simp add: wrap_int_def)
qed

lemma thread_body_no_columns:
  assumes "cols (other_mat st) = 0"
  shows "thread_body st n (elements_per_thread (this_mat st) (other_mat st) n) i = st"
  using assms
  by (simp add: thread_body_def thread_start_def thread_end_def elements_per_thread_def
      int_mul_def wrap_int_def int_quot_def index_loop_empty)

lemma nonpositive_total_ranges:
  fixes t n e i :: int
  assumes "INT_MIN \<le> t" "t \<le> 0" "1 \<le> n" "e = int_quot t n" "0 \<le> i" "i < n"
  shows "(if i = n - 1 then t else int_mul (i + 1) e) \<le> int_mul i e"
proof -
  define q where "q = \<bar>t\<bar> div n"
  have e: "e = - q"
    using assms(2,3,4) by (cases "t = 0") (simp_all add: int_quot_def q_def)
  have q0: "0 \<le> q"
    using assms(3) by (simp add: q_def pos_imp_zdiv_nonneg_iff)
  have "n * q + \<bar>t\<bar> mod n = \<bar>t\<bar>"
    by (simp add: q_def)
  moreover have "0 \<le> \<bar>t\<bar> mod n"
    using assms(3) by simp
  ultimately have nq: "n * q \<le> - t"
    using assms(2) by linarith
  have kq: "k * q \<le> - t" if "0 \<le> k" "k \<le> n" for k
  proof -
    from that(2) q0 have "k * q \<le> n * q"
      by (rule mult_right_mono)
    with nq show ?thesis
      by linarith
  qed
  have k0: "0 \<le> k * q" if "0 \<le> k" for k
    using that q0 by simp
  have nowrap: "int_mul k e = - (k * q)" if "0 \<le> k" "k \<le> n" for k
  proof -
    have "INT_MIN \<le> - (k * q)" "- (k * q) \<le> INT_MAX"
      using kq [OF that] k0 [OF that(1)] assms(1) by (simp_all add: INT_MAX_def)
    then show ?thesis
      by (simp add: int_mul_def e wrap_int_id)
  qed
  show ?thesis
  proof (cases "i = n - 1")
    case True
    have "(n - 1) * q \<le> n * q"
      using q0 by (simp add: algebra_simps)
    with nq have "t \<le> - ((n - 1) * q)"
      by linarith
    with True nowrap [of "n - 1"] assms(3) show ?thesis
      by simp
  next
    case False
    have "i * q \<le> (i + 1) * q"
      using q0 by (simp add: algebra_simps)
    with False nowrap [of i] nowrap [of "i + 1"] assms(5,6) show ?thesis
      by simp
  qed
qed

lemma thread_range_safe:
  assumes "0 \<le> rows (this_mat st)" "0 \<le> cols (other_mat st)" "1 \<le> n" "0 \<le> i" "i < n"
  defines "ept \<equiv> elements_per_thread (this_mat st) (other_mat st) n"
  shows "thread_end st n ept i \<le> thread_start ept i \<or>
    (0 \<le> thread_start ept i \<and>
     thread_end st n ept i \<le> rows (this_mat st) * cols (other_mat st))"
proof -
  let ?p = "rows (this_mat st) * cols (other_mat st)"
  let ?t = "int_mul (rows (this_mat st)) (cols (other_mat st))"
  have p0: "0 \<le> ?p"
    using assms(1,2) by simp
  have tr: "INT_MIN \<le> ?t" "?t \<le> INT_MAX"
    by (simp_all add: int_mul_def wrap_int_range)
  have tp: "?t \<le> ?p"
    using p0 by (simp add: int_mul_def wrap_int_le)
  show ?thesis
  proof (cases "?t \<le> 0")
    case True
    have eq: "ept = int_quot ?t n"
      by (simp add: ept_def elements_per_thread_def)
    have "thread_end st n ept i \<le> thread_start ept i"
      using nonpositive_total_ranges [OF tr(1) True assms(3) eq assms(4,5)]
      by (simp only: thread_end_def thread_start_def)
    then show ?thesis ..
  next
    case False
    then have t0: "0 \<le> ?t"
      by simp
    have e: "ept = ?t div n"
      using t0 assms(3) by (simp add: ept_def elements_per_thread_def int_quot_nonneg)
    note nw = index_range_no_wrap [OF t0 tr(2) assms(3) e]
    have "0 \<le> thread_start ept i"
      using nw(1,3) [of i] assms(4,5) by (simp add: thread_start_def)
    moreover have "thread_end st n ept i \<le> ?t"
      using nw(2,3) [of "i + 1"] assms(4,5) by (simp add: thread_end_def)
    ultimately show ?thesis
      using tp by simp
  qed
qed

lemma flat_index_in_storage:
  fixes x r c :: int
  assumes "0 \<le> x" "x < r * c" "0 \<le> r" "0 \<le> c"
  shows "c \<noteq> 0" "0 \<le> int_quot x c" "int_quot x c < r" "0 \<le> int_rem x c" "int_rem x c < c"
proof -
  have pos: "0 < c"
    using assms by (rule flat_index_pos)
  then show "c \<noteq> 0"
    by simp
  show "0 \<le> int_quot x c" "int_quot x c < r" "0 \<le> int_rem x c" "int_rem x c < c"
    using flat_index_row [OF assms(1,2) pos] assms(1) pos
    by (simp_all add: int_quot_nonneg int_rem_nonneg)
qed

section \<open>The claims\<close>

subsection \<open>Element access\<close>

text \<open>
  C5. For every matrix and every pair of integers \<open>(row, col)\<close>, the accessor, read or
  written through, fails with the out-of-range error exactly when \<open>row\<close> is not in
  \<open>[0, rows)\<close> or \<open>col\<close> is not in \<open>[0, cols)\<close>. No call escapes the check: inside the
  bounds the read yields the cell and the write replaces it, and nothing else can happen.
\<close>

theorem at_checks_bounds:
  "(at m row col = Inl IndexOutOfRange \<longleftrightarrow>
      \<not> (0 \<le> row \<and> row < rows m) \<or> \<not> (0 \<le> col \<and> col < cols m)) \<and>
   (at_assign m row col v = Inl IndexOutOfRange \<longleftrightarrow>
      \<not> (0 \<le> row \<and> row < rows m) \<or> \<not> (0 \<le> col \<and> col < cols m)) \<and>
   (0 \<le> row \<and> row < rows m \<and> 0 \<le> col \<and> col < cols m \<longrightarrow>
      at m row col = Inr (cell_at (data m) row col) \<and>
      at_assign m row col v = Inr (m\<lparr>data := cell_upd (data m) row col v\<rparr>))"
  by (auto simp: at_def at_assign_def)

theorem at_checks_bounds_witness:
  "at scenario_A 2 0 = Inl IndexOutOfRange \<and> at scenario_A 0 (- 1) = Inl IndexOutOfRange \<and>
   at_assign scenario_A 2 0 9 = Inl IndexOutOfRange \<and>
   at scenario_A 1 0 = Inr 3 \<and>
   at_assign scenario_A 1 0 9 = Inr \<lparr>rows = 2, cols = 2, data = [[1, 2], [9, 4]]\<rparr>"
  using at_checks_bounds [of scenario_A 2 0 9] at_checks_bounds [of scenario_A 0 "- 1" 9]
    at_checks_bounds [of scenario_A 1 0 9]
  by (simp add: scenario_A_def cell_at_def cell_upd_def)

subsection \<open>Mismatched dimensions\<close>

text \<open>
  C4. Both multiplications fail with the dimension-mismatch error if and only if the
  columns of \<open>A\<close> differ from the rows of \<open>B\<close>, whatever the number of threads; and then
  neither a result matrix nor a frame is produced.
\<close>

theorem mismatch_iff:
  "(multiply A B = Inl DimensionMismatch \<longleftrightarrow> cols A \<noteq> rows B) \<and>
   (multiplyParallel A B num_threads = Inl DimensionMismatch \<longleftrightarrow> cols A \<noteq> rows B) \<and>
   (cols A \<noteq> rows B \<longrightarrow>
      (\<forall>C. multiply A B \<noteq> Inr C) \<and> (\<forall>C. multiplyParallel A B num_threads \<noteq> Inr C) \<and>
      (\<forall>st. multiply_run A B \<noteq> Inr st) \<and> (\<forall>st. multiplyParallel_run A B num_threads \<noteq> Inr st))"
  by (auto simp: multiply_def multiply_run_def multiplyParallel_def multiplyParallel_run_def
      Matrix_def Let_def split: if_splits)

theorem mismatch_iff_witness:
  "multiply \<lparr>rows = 2, cols = 3, data = replicate 2 (replicate 3 1)\<rparr>
     \<lparr>rows = 4, cols = 2, data = replicate 4 (replicate 2 1)\<rparr> = Inl DimensionMismatch \<and>
   multiplyParallel \<lparr>rows = 2, cols = 3, data = replicate 2 (replicate 3 1)\<rparr>
     \<lparr>rows = 4, cols = 2, data = replicate 4 (replicate 2 1)\<rparr> 2 = Inl DimensionMismatch \<and>
   multiply scenario_A scenario_B \<noteq> Inl DimensionMismatch \<and>
   multiplyParallel scenario_A scenario_B 2 \<noteq> Inl DimensionMismatch"
  using mismatch_iff [of "\<lparr>rows = 2, cols = 3, data = replicate 2 (replicate 3 1)\<rparr>"
      "\<lparr>rows = 4, cols = 2, data = replicate 4 (replicate 2 1)\<rparr>" 2]
    mismatch_iff [of scenario_A scenario_B 2]
  by (simp add: scenario_A_def scenario_B_def)

subsection \<open>Empty matrices\<close>

text \<open>
  C10, as stated, promises a successful construction whenever one of the two dimensions is
  zero. The constructor has no check of its own, but it hands both numbers to
  \<^verbatim>\<open>std::vector\<close>, and a negative one does not get through: \<^verbatim>\<open>Matrix(0, -1)\<close> ends in an
  exception.
\<close>

theorem negative_dimension_counterexample:
  "Matrix 0 (- 1) = Inl LengthError"
  by (simp add: Matrix_def)

text \<open>
  C10, amended. With one dimension zero and neither negative, the construction succeeds
  with no error; the matrix has the dimensions asked for, its storage holds no cell, and
  every read and every write through the accessor fails with the out-of-range error.
\<close>

theorem empty_matrix:
  assumes "r = 0 \<or> c = 0" "0 \<le> r" "0 \<le> c"
  shows "\<exists>m. Matrix r c = Inr m \<and> rows m = r \<and> cols m = c \<and> matrix_inv m \<and>
    concat (data m) = [] \<and>
    (\<forall>row col. at m row col = Inl IndexOutOfRange) \<and>
    (\<forall>row col v. at_assign m row col v = Inl IndexOutOfRange)"
proof -
  let ?m = "\<lparr>rows = r, cols = c, data = replicate (nat r) (replicate (nat c) (0 :: cell))\<rparr>"
  have "Matrix r c = Inr ?m"
    using assms(2,3) by (rule Matrix_Inr)
  moreover have "matrix_inv ?m"
    using assms(2,3) by (rule matrix_inv_zero)
  moreover have "concat (data ?m) = []"
    using assms(1) by auto
  moreover have "at ?m row col = Inl IndexOutOfRange" for row col
    using assms(1) by (auto simp: at_def)
  moreover have "at_assign ?m row col v = Inl IndexOutOfRange" for row col v
    using assms(1) by (auto simp: at_assign_def)
  ultimately show ?thesis
    by simp
qed

theorem empty_matrix_witness:
  "\<exists>m. Matrix 0 3 = Inr m \<and> rows m = 0 \<and> cols m = 3 \<and> matrix_inv m \<and>
    concat (data m) = [] \<and>
    (\<forall>row col. at m row col = Inl IndexOutOfRange) \<and>
    (\<forall>row col v. at_assign m row col v = Inl IndexOutOfRange)"
  using empty_matrix [of 0 3] by simp

subsection \<open>A thread count that is not positive\<close>

text \<open>
  C6, as stated, has the parallel multiplication reject a thread count below one with an
  error of its own. The function has no such check. With \<open>-1\<close> threads the loop that starts
  the threads does not run and the zero matrix comes back as the product; with \<open>0\<close> threads
  the division \<^verbatim>\<open>this->rows * other.cols / num_threads\<close> has no result.
\<close>

theorem nonpositive_workers_counterexample:
  "multiplyParallel scenario_A scenario_B (- 1) =
     Inr \<lparr>rows = 2, cols = 2, data = [[0, 0], [0, 0]]\<rparr> \<and>
   multiplyParallel scenario_A scenario_B 0 = Inl DivideError"
  by (simp add: multiplyParallel_def multiplyParallel_run_def Matrix_def scenario_A_def
      scenario_B_def int_mul_def wrap_int_def INT_MIN_def thread_loop_none numeral_2_eq_2)

text \<open>
  C6, amended. For matrices whose inner dimensions agree and a thread count below one, the
  parallel multiplication never raises the invalid-worker-count error: a negative count
  starts no thread and returns the zero matrix of the product's shape, and a count of zero
  (or the one quotient that does not fit, \<^verbatim>\<open>INT_MIN / -1\<close>) is a division without a result.
\<close>

theorem nonpositive_workers:
  assumes "matrix_inv A" "matrix_inv B" "cols A = rows B" "num_threads \<le> 0"
  shows "multiplyParallel A B num_threads =
      (if num_threads = 0 \<or> (int_mul (rows A) (cols B) = INT_MIN \<and> num_threads = - 1)
       then Inl DivideError
       else Inr \<lparr>rows = rows A, cols = cols B,
         data = replicate (nat (rows A)) (replicate (nat (cols B)) 0)\<rparr>) \<and>
    multiplyParallel A B num_threads \<noteq> Inl InvalidWorkerCount"
proof -
  have d: "0 \<le> rows A" "0 \<le> cols B"
    using assms(1,2) by (simp_all add: matrix_inv_def)
  have e: "multiplyParallel A B num_threads =
    (if num_threads = 0 \<or> (int_mul (rows A) (cols B) = INT_MIN \<and> num_threads = - 1)
     then Inl DivideError
     else Inr \<lparr>rows = rows A, cols = cols B,
       data = replicate (nat (rows A)) (replicate (nat (cols B)) 0)\<rparr>)"
    using assms(3,4)
    by (simp add: multiplyParallel_def multiplyParallel_run_def Matrix_Inr [OF d] Let_def
        thread_loop_none)
  then show ?thesis
    by simp
qed

theorem nonpositive_workers_witness:
  "matrix_inv scenario_A \<and> matrix_inv scenario_B \<and> cols scenario_A = rows scenario_B \<and>
   multiplyParallel scenario_A scenario_B (- 3) =
     Inr \<lparr>rows = 2, cols = 2, data = [[0, 0], [0, 0]]\<rparr> \<and>
   multiplyParallel scenario_A scenario_B (- 3) \<noteq> Inl InvalidWorkerCount"
proof -
  have a: "matrix_inv scenario_A" and b: "matrix_inv scenario_B"
    and c: "cols scenario_A = rows scenario_B"
    by (simp_all add: matrix_inv_def scenario_A_def scenario_B_def)
  have n: "(- 3 :: int) \<le> 0"
    by simp
  show ?thesis
    using a b c nonpositive_workers [OF a b c n]
    by (simp add: scenario_A_def scenario_B_def int_mul_def wrap_int_def INT_MIN_def
        numeral_2_eq_2)
qed

subsection \<open>The sequential product\<close>

text \<open>
  C2. For matrices \<open>A\<close> and \<open>B\<close> with the columns of \<open>A\<close> equal to the rows of \<open>B\<close>, the
  sequential multiplication returns a matrix \<open>C\<close> with the rows of \<open>A\<close> and the columns of
  \<open>B\<close>, and every cell \<open>C[i][j]\<close> is the sum over \<open>k\<close> of \<open>A[i][k] * B[k][j]\<close> in 32-bit
  arithmetic: read as a signed integer, it is the exact sum wrapped around. No overflow is
  detected: the call returns a value for all such \<open>A\<close> and \<open>B\<close>.
\<close>

theorem multiply_correct:
  assumes "matrix_inv A" "matrix_inv B" "cols A = rows B"
  shows "\<exists>C. multiply A B = Inr C \<and> rows C = rows A \<and> cols C = cols B \<and> matrix_inv C \<and>
    (\<forall>i j. 0 \<le> i \<and> i < rows A \<and> 0 \<le> j \<and> j < cols B \<longrightarrow>
       cell_at (data C) i j = (\<Sum>k = 0..<cols A. cell_at (data A) i k * cell_at (data B) k j) \<and>
       sint (cell_at (data C) i j) =
         wrap_int (\<Sum>k = 0..<cols A. sint (cell_at (data A) i k) * sint (cell_at (data B) k j)))"
proof -
  have d: "0 \<le> rows A" "0 \<le> cols B"
    using assms(1,2) by (simp_all add: matrix_inv_def)
  from multiply_result [OF d assms(3)] obtain C where
    C: "multiply A B = Inr C" "rows C = rows A" "cols C = cols B" "matrix_inv C"
      "\<forall>i j. 0 \<le> i \<and> i < rows A \<and> 0 \<le> j \<and> j < cols B \<longrightarrow> cell_at (data C) i j = dot A B i j"
    by blast
  have "cell_at (data C) i j = (\<Sum>k = 0..<cols A. cell_at (data A) i k * cell_at (data B) k j) \<and>
    sint (cell_at (data C) i j) =
      wrap_int (\<Sum>k = 0..<cols A. sint (cell_at (data A) i k) * sint (cell_at (data B) k j))"
    if "0 \<le> i \<and> i < rows A \<and> 0 \<le> j \<and> j < cols B" for i j
  proof -
    from C(5) that have e: "cell_at (data C) i j = dot A B i j"
      by blast
    show ?thesis
      unfolding e sint_dot by (simp add: dot_def)
  qed
  with C(1-4) show ?thesis
    by blast
qed

theorem multiply_correct_witness:
  "matrix_inv scenario_A \<and> matrix_inv scenario_B \<and> cols scenario_A = rows scenario_B \<and>
   (\<exists>C. multiply scenario_A scenario_B = Inr C \<and> rows C = 2 \<and> cols C = 2 \<and>
      cell_at (data C) 0 0 = 19 \<and> cell_at (data C) 0 1 = 22 \<and>
      cell_at (data C) 1 0 = 43 \<and> cell_at (data C) 1 1 = 50 \<and>
      sint (cell_at (data C) 1 1) = 50)"
proof -
  have a: "matrix_inv scenario_A" and b: "matrix_inv scenario_B"
    and c: "cols scenario_A = rows scenario_B"
    by (simp_all add: matrix_inv_def scenario_A_def scenario_B_def)
  have two: "(\<Sum>k = 0..<2. f k) = f 0 + f 1" for f :: "int \<Rightarrow> cell"
    by (simp add: sum_int_head)
  from multiply_correct [OF a b c] obtain C where
    C: "multiply scenario_A scenario_B = Inr C" "rows C = rows scenario_A"
      "cols C = cols scenario_B"
      "\<forall>i j. 0 \<le> i \<and> i < rows scenario_A \<and> 0 \<le> j \<and> j < cols scenario_B \<longrightarrow>
        cell_at (data C) i j =
          (\<Sum>k = 0..<cols scenario_A. cell_at (data scenario_A) i k * cell_at (data scenario_B) k j) \<and>
        sint (cell_at (data C) i j) =
          wrap_int (\<Sum>k = 0..<cols scenario_A.
            sint (cell_at (data scenario_A) i k) * sint (cell_at (data scenario_B) k j))"
    by blast
  have "cell_at (data C) 0 0 = 19" "cell_at (data C) 0 1 = 22"
    "cell_at (data C) 1 0 = 43" "cell_at (data C) 1 1 = 50"
    using C(4) [rule_format, of 0 0] C(4) [rule_format, of 0 1]
      C(4) [rule_format, of 1 0] C(4) [rule_format, of 1 1]
    by (simp_all add: scenario_A_def scenario_B_def cell_at_def two)
  moreover from this have "sint (cell_at (data C) 1 1) = 50"
    by simp
  moreover have "rows C = 2" "cols C = 2"
    using C(2,3) by (simp_all add: scenario_A_def scenario_B_def)
  ultimately show ?thesis
    using a b c C(1) by blast
qed

subsection \<open>The operands\<close>

text \<open>
  C8. For matrices whose inner dimensions agree, the frame that either multiplication
  leaves holds the receiver and the argument exactly as they were passed in, contents and
  dimensions; the third object of the frame is the result that is returned. The sequential
  multiplication always leaves such a frame, the parallel one for every thread count from
  one up.
\<close>

theorem operands_unchanged:
  assumes "matrix_inv A" "matrix_inv B" "cols A = rows B"
  shows "(\<exists>st. multiply_run A B = Inr st \<and> this_mat st = A \<and> other_mat st = B \<and>
            multiply A B = Inr (result_mat st)) \<and>
    (\<forall>st. multiplyParallel_run A B num_threads = Inr st \<longrightarrow>
       this_mat st = A \<and> other_mat st = B \<and>
       multiplyParallel A B num_threads = Inr (result_mat st)) \<and>
    (1 \<le> num_threads \<longrightarrow> (\<exists>st. multiplyParallel_run A B num_threads = Inr st))"
proof -
  have d: "0 \<le> rows A" "0 \<le> cols B"
    using assms(1,2) by (simp_all add: matrix_inv_def)
  obtain st where st: "multiply_run A B = Inr st"
    using multiply_run_Inr [OF d assms(3)] by blast
  then have "this_mat st = A \<and> other_mat st = B \<and> multiply A B = Inr (result_mat st)"
    using multiply_run_frame [OF st] by (simp add: multiply_def)
  with st have seq: "\<exists>st. multiply_run A B = Inr st \<and> this_mat st = A \<and> other_mat st = B \<and>
      multiply A B = Inr (result_mat st)"
    by blast
  have par: "this_mat st = A \<and> other_mat st = B \<and>
      multiplyParallel A B num_threads = Inr (result_mat st)"
    if "multiplyParallel_run A B num_threads = Inr st" for st
    using multiplyParallel_run_frame [OF that] that by (simp add: multiplyParallel_def)
  have ex: "\<exists>st. multiplyParallel_run A B num_threads = Inr st" if "1 \<le> num_threads"
    using that d assms(3)
    by (simp add: multiplyParallel_run_def Matrix_Inr Let_def)
  from seq par ex show ?thesis
    by blast
qed

theorem operands_unchanged_witness:
  "matrix_inv scenario_A \<and> matrix_inv scenario_B \<and> cols scenario_A = rows scenario_B \<and>
   (\<exists>st. multiply_run scenario_A scenario_B = Inr st \<and>
      this_mat st = scenario_A \<and> other_mat st = scenario_B) \<and>
   (\<exists>st. multiplyParallel_run scenario_A scenario_B 2 = Inr st \<and>
      this_mat st = scenario_A \<and> other_mat st = scenario_B)"
proof -
  have a: "matrix_inv scenario_A" and b: "matrix_inv scenario_B"
    and c: "cols scenario_A = rows scenario_B"
    by (simp_all add: matrix_inv_def scenario_A_def scenario_B_def)
  from operands_unchanged [OF a b c, of 2] a b c show ?thesis
    by (metis one_le_numeral)
qed

subsection \<open>The class invariant\<close>

text \<open>
  C7. Every matrix value that the constructor, the fill, a write through the accessor and
  the two multiplications (result and operands) can produce has a storage of exactly
  \<open>rows\<close> rows with \<open>cols\<close> cells each, every one of them holding a value. In particular a
  matrix that the constructor returns for \<open>(r, c)\<close> has \<open>r\<close> rows of \<open>c\<close> cells, all zero.
\<close>

theorem invariant_holds:
  "(reachable m \<longrightarrow>
      0 \<le> rows m \<and> 0 \<le> cols m \<and> length (data m) = nat (rows m) \<and>
      (\<forall>row \<in> set (data m). length row = nat (cols m))) \<and>
   (Matrix r c = Inr m' \<longrightarrow>
      reachable m' \<and> rows m' = r \<and> cols m' = c \<and> length (data m') = nat r \<and>
      (\<forall>row \<in> set (data m'). length row = nat c \<and> (\<forall>x \<in> set row. x = 0)))"
proof -
  have "0 \<le> rows m \<and> 0 \<le> cols m \<and> length (data m) = nat (rows m) \<and>
      (\<forall>row \<in> set (data m). length row = nat (cols m))" if "reachable m"
    using reachable_inv [OF that] by (simp add: matrix_inv_def)
  moreover have "reachable m' \<and> rows m' = r \<and> cols m' = c \<and> length (data m') = nat r \<and>
      (\<forall>row \<in> set (data m'). length row = nat c \<and> (\<forall>x \<in> set row. x = 0))"
    if "Matrix r c = Inr m'"
    using Matrix_props(3) [OF that] reachable.construct [OF that] by auto
  ultimately show ?thesis
    by blast
qed


theorem invariant_holds_witness:
  "reachable (fill_increment_value (\<lambda>g. 7) \<lparr>rows = 2, cols = 3, data = replicate 2 (replicate 3 0)\<rparr>) \<and>
   rows (fill_increment_value (\<lambda>g. 7) \<lparr>rows = 2, cols = 3, data = replicate 2 (replicate 3 0)\<rparr>) = 2 \<and>
   length (data (fill_increment_value (\<lambda>g. 7)
     \<lparr>rows = 2, cols = 3, data = replicate 2 (replicate 3 0)\<rparr>)) = 2 \<and>
   Matrix 2 3 = Inr \<lparr>rows = 2, cols = 3, data = replicate 2 (replicate 3 0)\<rparr> \<and>
   reachable \<lparr>rows = 2, cols = 3, data = replicate 2 (replicate 3 0)\<rparr>"
proof -
  let ?z = "\<lparr>rows = 2, cols = 3, data = replicate 2 (replicate 3 (0 :: cell))\<rparr>"
  let ?f = "fill_increment_value (\<lambda>g. 7) ?z"
  have m: "Matrix 2 3 = Inr ?z"
    by (simp add: Matrix_def)
  then have rz: "reachable ?z"
    by (rule reachable.construct)
  then have rf: "reachable ?f"
    by (rule reachable.filled)
  have "rows ?f = rows ?z"
    using fill_increment_value_shape [of ?z "\<lambda>g. 7"] by (simp add: same_shape_def)
  then have "rows ?f = 2"
    by simp
  with invariant_holds [of ?f 2 3 ?z] rf rz m show ?thesis
    by simp
qed

subsection \<open>The fill\<close>

text \<open>
  C9. Whatever raw values the generator produces, the fill keeps the dimensions and the
  layout, and after it every cell holds an integer between 1 and 10: cell \<open>(i, j)\<close> holds
  what the distribution \<^verbatim>\<open>dis(1, 10)\<close> makes of the raw value number \<open>i * cols + j\<close>. The
  fill overwrites the full contents: nothing of what the matrix held before is left, two
  matrices of the same shape are equal after a fill from the same raw values.
\<close>

theorem fill_range:
  assumes "matrix_inv m"
  shows "rows (fill_increment_value gen m) = rows m \<and>
    cols (fill_increment_value gen m) = cols m \<and>
    matrix_inv (fill_increment_value gen m) \<and>
    (\<forall>i j. 0 \<le> i \<and> i < rows m \<and> 0 \<le> j \<and> j < cols m \<longrightarrow>
       sint (cell_at (data (fill_increment_value gen m)) i j) =
         uniform_int_distribution 1 10 (gen (nat (i * cols m + j))) \<and>
       1 \<le> sint (cell_at (data (fill_increment_value gen m)) i j) \<and>
       sint (cell_at (data (fill_increment_value gen m)) i j) \<le> 10) \<and>
    (\<forall>m'. matrix_inv m' \<and> rows m' = rows m \<and> cols m' = cols m \<longrightarrow>
       fill_increment_value gen m' = fill_increment_value gen m)"
proof -
  have shape: "same_shape x (fill_increment_value gen x)" for x
    by (rule fill_increment_value_shape)
  have dims: "rows (fill_increment_value gen x) = rows x"
    "cols (fill_increment_value gen x) = cols x" for x
    using shape [of x] by (simp_all add: same_shape_def)
  have inv: "matrix_inv (fill_increment_value gen x)" if "matrix_inv x" for x
    using shape that by (rule matrix_inv_same_shape)
  have cells: "sint (cell_at (data (fill_increment_value gen m)) i j) =
         uniform_int_distribution 1 10 (gen (nat (i * cols m + j))) \<and>
       1 \<le> sint (cell_at (data (fill_increment_value gen m)) i j) \<and>
       sint (cell_at (data (fill_increment_value gen m)) i j) \<le> 10"
    if "0 \<le> i \<and> i < rows m \<and> 0 \<le> j \<and> j < cols m" for i j
  proof -
    let ?v = "uniform_int_distribution 1 10 (gen (nat (i * cols m + j)))"
    have e: "cell_at (data (fill_increment_value gen m)) i j = word_of_int ?v"
      using that by (intro fill_increment_value_cell [OF assms]) simp_all
    have r: "1 \<le> ?v" "?v \<le> 10"
      by (rule uniform_int_distribution_range, simp)+
    then have "wrap_int ?v = ?v"
      by (intro wrap_int_id) (simp_all add: INT_MIN_def INT_MAX_def)
    then have "sint (word_of_int ?v :: cell) = ?v"
      by (simp only: sint_of_int_wrap)
    with r show ?thesis
      unfolding e by simp
  qed
  have same: "fill_increment_value gen m' = fill_increment_value gen m"
    if "matrix_inv m' \<and> rows m' = rows m \<and> cols m' = cols m" for m'
  proof (rule matrix_eqI)
    show "matrix_inv (fill_increment_value gen m')" "matrix_inv (fill_increment_value gen m)"
      using that assms by (simp_all add: inv)
    show "rows (fill_increment_value gen m') = rows (fill_increment_value gen m)"
      "cols (fill_increment_value gen m') = cols (fill_increment_value gen m)"
      using that by (simp_all add: dims)
    fix i j
    assume "0 \<le> i" "i < rows (fill_increment_value gen m')" "0 \<le> j"
      "j < cols (fill_increment_value gen m')"
    then have b: "0 \<le> i" "i < rows m" "0 \<le> j" "j < cols m"
      using that by (simp_all add: dims)
    from that have m': "matrix_inv m'" "i < rows m'" "j < cols m'" "cols m' = cols m"
      using b by simp_all
    show "cell_at (data (fill_increment_value gen m')) i j =
      cell_at (data (fill_increment_value gen m)) i j"
      unfolding fill_increment_value_cell [OF m'(1) b(1) m'(2) b(3) m'(3)]
        fill_increment_value_cell [OF assms b] m'(4) ..
  qed
  from dims [of m] inv [OF assms] cells same show ?thesis
    by blast
qed

theorem fill_range_witness:
  "matrix_inv scenario_A \<and>
   rows (fill_increment_value (\<lambda>g. 7 * g + 9) scenario_A) = 2 \<and>
   cols (fill_increment_value (\<lambda>g. 7 * g + 9) scenario_A) = 2 \<and>
   sint (cell_at (data (fill_increment_value (\<lambda>g. 7 * g + 9) scenario_A)) 0 0) = 10 \<and>
   sint (cell_at (data (fill_increment_value (\<lambda>g. 7 * g + 9) scenario_A)) 0 1) = 7 \<and>
   sint (cell_at (data (fill_increment_value (\<lambda>g. 7 * g + 9) scenario_A)) 1 0) = 4 \<and>
   sint (cell_at (data (fill_increment_value (\<lambda>g. 7 * g + 9) scenario_A)) 1 1) = 1 \<and>
   fill_increment_value (\<lambda>g. 7 * g + 9) scenario_B =
     fill_increment_value (\<lambda>g. 7 * g + 9) scenario_A"
proof -
  let ?gen = "\<lambda>g :: nat. 7 * g + 9"
  have a: "matrix_inv scenario_A"
    by (simp add: matrix_inv_def scenario_A_def)
  note f = fill_range [OF a, of ?gen]
  have r: "rows scenario_A = 2" "cols scenario_A = 2"
    by (simp_all add: scenario_A_def)
  have b: "matrix_inv scenario_B \<and> rows scenario_B = rows scenario_A \<and>
    cols scenario_B = cols scenario_A"
    by (simp add: matrix_inv_def scenario_A_def scenario_B_def)
  note c = f [THEN conjunct2, THEN conjunct2, THEN conjunct2, THEN conjunct1, rule_format]
  have "sint (cell_at (data (fill_increment_value ?gen scenario_A)) 0 0) = 10"
    "sint (cell_at (data (fill_increment_value ?gen scenario_A)) 0 1) = 7"
    "sint (cell_at (data (fill_increment_value ?gen scenario_A)) 1 0) = 4"
    "sint (cell_at (data (fill_increment_value ?gen scenario_A)) 1 1) = 1"
    using c [of 0 0] c [of 0 1] c [of 1 0] c [of 1 1]
    by (simp_all add: r uniform_int_distribution_def nat_add_distrib)
  moreover have "fill_increment_value ?gen scenario_B = fill_increment_value ?gen scenario_A"
    using f [THEN conjunct2, THEN conjunct2, THEN conjunct2, THEN conjunct2, rule_format,
        OF b] .
  moreover have "rows (fill_increment_value ?gen scenario_A) = 2"
    "cols (fill_increment_value ?gen scenario_A) = 2"
    using f [THEN conjunct1] f [THEN conjunct2, THEN conjunct1] by (simp_all add: r)
  ultimately show ?thesis
    using a by simp
qed

subsection \<open>The parallel product\<close>

text \<open>
  C1 holds wherever the number of output cells fits an \<^verbatim>\<open>int\<close> (lemma
  \<open>multiplyParallel_eq_multiply\<close>). Beyond that, \<^verbatim>\<open>this->rows * other.cols\<close> overflows in
  the parallel multiplication, which the sequential one never computes. For the column of
  46341 ones times the row of 46341 ones and two threads, the product wraps to a negative
  number, both threads get an empty range, and the parallel multiplication returns the zero
  matrix, while the sequential product has a one in cell \<open>(0, 0)\<close>.
\<close>

theorem parallel_product_overflow:
  "multiplyParallel (column_of_ones 46341) (row_of_ones 46341) 2 =
     Inr \<lparr>rows = 46341, cols = 46341, data = replicate 46341 (replicate 46341 0)\<rparr> \<and>
   map_sum id (\<lambda>C. cell_at (data C) 0 0)
     (multiplyParallel (column_of_ones 46341) (row_of_ones 46341) 2) = Inr 0 \<and>
   map_sum id (\<lambda>C. cell_at (data C) 0 0)
     (multiply (column_of_ones 46341) (row_of_ones 46341)) = Inr 1 \<and>
   multiplyParallel (column_of_ones 46341) (row_of_ones 46341) 2
     \<noteq> multiply (column_of_ones 46341) (row_of_ones 46341)"
proof -
  let ?A = "column_of_ones 46341"
  let ?B = "row_of_ones 46341"
  let ?Z = "\<lparr>rows = 46341, cols = 46341, data = replicate 46341 (replicate 46341 (0 :: cell))\<rparr>"
  let ?st = "\<lparr>this_mat = ?A, other_mat = ?B, result_mat = ?Z\<rparr>"
  have dims: "rows ?A = 46341" "cols ?A = 1" "rows ?B = 1" "cols ?B = 46341"
    by (simp_all add: column_of_ones_def row_of_ones_def)
  have body: "thread_body ?st 2 (- 1073739507) i = ?st" if "i = 0 \<or> i = 1" for i
    using that
    by (auto simp: thread_body_def thread_start_def thread_end_def dims overflow_total
        int_mul_def wrap_int_def intro!: index_loop_empty)
  have loop: "thread_loop ?st 2 (- 1073739507) 0 = ?st"
    by (simp add: thread_loop.simps [of _ 2 _ 0] thread_loop.simps [of _ 2 _ 1]
        thread_loop.simps [of _ 2 _ 2] body)
  have par: "multiplyParallel ?A ?B 2 = Inr ?Z"
    by (simp add: multiplyParallel_def multiplyParallel_run_def Matrix_def dims overflow_total
        overflow_ept INT_MIN_def loop)
  have zero: "cell_at (data ?Z) 0 0 = 0"
    by (simp add: cell_at_def)
  from multiply_result [of ?A ?B] obtain C where
    C: "multiply ?A ?B = Inr C"
      "\<forall>i j. 0 \<le> i \<and> i < rows ?A \<and> 0 \<le> j \<and> j < cols ?B \<longrightarrow> cell_at (data C) i j = dot ?A ?B i j"
    by (auto simp: dims)
  have "dot ?A ?B 0 0 = 1"
    by (simp add: dot_def dims sum_int_head) (simp add: column_of_ones_def row_of_ones_def cell_at_def)
  with C(2) have one: "cell_at (data C) 0 0 = 1"
    by (simp add: dims)
  from par zero C(1) one show ?thesis
    by auto
qed

subsection \<open>The partition of the output cells\<close>

text \<open>
  C3 holds wherever the number of output cells fits an \<^verbatim>\<open>int\<close> (lemma
  \<open>partition_no_overflow\<close>). For 46341 rows, 46341 columns and two threads, the index space
  has 2147488281 indices, and the ranges that the two threads compute are
  \<open>[0, -1073739507)\<close> and \<open>[-1073739507, -2147479015)\<close>: both empty, so that neither thread
  changes the frame and no index is covered.
\<close>

theorem partition_overflow:
  "rows (column_of_ones 46341) * cols (row_of_ones 46341) = 2147488281 \<and>
   thread_start (elements_per_thread (column_of_ones 46341) (row_of_ones 46341) 2) 0 = 0 \<and>
   thread_end \<lparr>this_mat = column_of_ones 46341, other_mat = row_of_ones 46341,
       result_mat = \<lparr>rows = 46341, cols = 46341, data = replicate 46341 (replicate 46341 0)\<rparr>\<rparr>
     2 (elements_per_thread (column_of_ones 46341) (row_of_ones 46341) 2) 0 = - 1073739507 \<and>
   thread_start (elements_per_thread (column_of_ones 46341) (row_of_ones 46341) 2) 1
     = - 1073739507 \<and>
   thread_end \<lparr>this_mat = column_of_ones 46341, other_mat = row_of_ones 46341,
       result_mat = \<lparr>rows = 46341, cols = 46341, data = replicate 46341 (replicate 46341 0)\<rparr>\<rparr>
     2 (elements_per_thread (column_of_ones 46341) (row_of_ones 46341) 2) 1 = - 2147479015 \<and>
   thread_body \<lparr>this_mat = column_of_ones 46341, other_mat = row_of_ones 46341,
       result_mat = \<lparr>rows = 46341, cols = 46341, data = replicate 46341 (replicate 46341 0)\<rparr>\<rparr>
     2 (elements_per_thread (column_of_ones 46341) (row_of_ones 46341) 2) 0 =
     \<lparr>this_mat = column_of_ones 46341, other_mat = row_of_ones 46341,
       result_mat = \<lparr>rows = 46341, cols = 46341, data = replicate 46341 (replicate 46341 0)\<rparr>\<rparr> \<and>
   thread_body \<lparr>this_mat = column_of_ones 46341, other_mat = row_of_ones 46341,
       result_mat = \<lparr>rows = 46341, cols = 46341, data = replicate 46341 (replicate 46341 0)\<rparr>\<rparr>
     2 (elements_per_thread (column_of_ones 46341) (row_of_ones 46341) 2) 1 =
     \<lparr>this_mat = column_of_ones 46341, other_mat = row_of_ones 46341,
       result_mat = \<lparr>rows = 46341, cols = 46341, data = replicate 46341 (replicate 46341 0)\<rparr>\<rparr>"
  unfolding overflow_ept
  by (simp add: thread_body_def thread_start_def thread_end_def index_loop_empty
      column_of_ones_def row_of_ones_def int_mul_def wrap_int_def)

end
